theory Spec2Isabelle
  imports Complex_Main
begin

section \<open>The audit endpoint of the page-audit service\<close>

text \<open>
  This theory embeds the handler of \<^verbatim>\<open>POST /audit\<close> (the Express server of the
  repository, \<^verbatim>\<open>app.post('/audit', ...)\<close>) and the pure helpers it is built from:
  the presence check on \<^verbatim>\<open>url\<close>, the normalisation of the URL, the listener that records
  SSL failures of sub-requests, the SSL verdict, the extraction of e-mail addresses, the
  conversion of the load time and the classification of caught errors.

  Strings are \<^typ>\<open>string\<close>: one \<^typ>\<open>char\<close> stands for one code unit of a JavaScript
  string, so the model covers the code units below 256. All the patterns and literals of
  the handler are ASCII.
\<close>

subsection \<open>JavaScript strings\<close>

text \<open>\<^verbatim>\<open>String.prototype.startsWith\<close> and \<^verbatim>\<open>String.prototype.includes\<close>
  (\<open>includes\<close> is a keyword of Isabelle, hence \<open>js_includes\<close>).\<close>

definition startsWith :: "string \<Rightarrow> string \<Rightarrow> bool" where
  "startsWith s p = (take (length p) s = p)"

fun js_includes :: "string \<Rightarrow> string \<Rightarrow> bool" where
  "js_includes [] p = (p = [])"
| "js_includes (c # cs) p = (startsWith (c # cs) p \<or> js_includes cs p)"

text \<open>
  The white space and line terminators that \<^verbatim>\<open>String.prototype.trim\<close> strips, among
  the code units below 256: TAB, LF, VT, FF, CR, SPACE and NBSP.
\<close>

definition is_space :: "char \<Rightarrow> bool" where
  "is_space c = (of_char c \<in> {9, 10, 11, 12, 13, 32, 160 :: nat})"

definition trim :: "string \<Rightarrow> string" where
  "trim s = rev (dropWhile is_space (rev (dropWhile is_space s)))"

subsection \<open>Regular expressions\<close>

text \<open>
  The two regular expressions of the handler use literals, a case-insensitive literal, an
  optional item, concatenation and a greedy repetition of a character class with a
  minimum count. \<open>rmatch r s\<close> lists the remainders of \<open>s\<close> after each way of matching
  \<open>r\<close> at the start of \<open>s\<close>, in the order in which a backtracking matcher tries them: a
  greedy item takes the most it can first. The head of the list is the match that
  JavaScript reports.
\<close>

datatype regex =
    Chr char
  | ChrI char
  | Opt regex
  | Cat regex regex
  | Rep "char \<Rightarrow> bool" nat

text \<open>
  Canonicalisation of a code unit under the \<^verbatim>\<open>i\<close> flag (without \<^verbatim>\<open>u\<close>): the upper-case
  form, except that a code unit of 128 or more never maps below 128. Only ASCII pattern
  characters occur here, so code units of 128 or more are left as they are.
\<close>

definition canonicalize :: "char \<Rightarrow> char" where
  "canonicalize c =
     (case map_of (zip ''abcdefghijklmnopqrstuvwxyz'' ''ABCDEFGHIJKLMNOPQRSTUVWXYZ'') c of
        Some u \<Rightarrow> u
      | None \<Rightarrow> c)"

fun rmatch :: "regex \<Rightarrow> string \<Rightarrow> string list" where
  "rmatch (Chr c) s = (case s of [] \<Rightarrow> [] | x # r \<Rightarrow> if x = c then [r] else [])"
| "rmatch (ChrI c) s =
     (case s of [] \<Rightarrow> [] | x # r \<Rightarrow> if canonicalize x = canonicalize c then [r] else [])"
| "rmatch (Opt r) s = rmatch r s @ [s]"
| "rmatch (Cat a b) s = concat (map (rmatch b) (rmatch a s))"
| "rmatch (Rep P n) s =
     map (\<lambda>k. drop k s) (rev [n ..< Suc (length (takeWhile P s))])"

definition seq :: "regex list \<Rightarrow> regex" where
  "seq rs = foldr Cat (butlast rs) (last rs)"

text \<open>The match at the start of \<open>s\<close>: the remainder after it, or \<open>None\<close>.\<close>

definition exec_at :: "regex \<Rightarrow> string \<Rightarrow> string option" where
  "exec_at r s = (case rmatch r s of [] \<Rightarrow> None | rest # _ \<Rightarrow> Some rest)"

text \<open>
  \<^verbatim>\<open>String.prototype.match\<close> with a global regular expression: the matches from left to
  right, each search starting where the last match ended; after an empty match the
  search moves one code unit on. The result is \<^verbatim>\<open>null\<close> when there is no match.
\<close>

function match_all :: "regex \<Rightarrow> string \<Rightarrow> string list" where
  "match_all r s =
     (case exec_at r s of
        Some rest \<Rightarrow>
          if length rest < length s
          then take (length s - length rest) s # match_all r rest
          else [] # (if s = [] then [] else match_all r (tl s))
      | None \<Rightarrow> if s = [] then [] else match_all r (tl s))"
  by pat_completeness auto
termination
  by (relation "measure (\<lambda>(r, s). length s)") auto

declare match_all.simps [simp del]

definition match_g :: "regex \<Rightarrow> string \<Rightarrow> string list option" where
  "match_g r s = (case match_all r s of [] \<Rightarrow> None | m # ms \<Rightarrow> Some (m # ms))"

subsection \<open>Normalising the URL\<close>

text \<open>\<^verbatim>\<open>/^https?:\/\//i\<close>, anchored at the start of the string.\<close>

definition scheme_re :: regex where
  "scheme_re =
     seq [ChrI CHR ''h'', ChrI CHR ''t'', ChrI CHR ''t'', ChrI CHR ''p'', Opt (ChrI CHR ''s''),
          Chr CHR '':'', Chr CHR ''/'', Chr CHR ''/'']"

text \<open>
  \<^verbatim>\<open>let normalizedUrl = url.trim();
   if (!normalizedUrl.match(/^https?:\/\//i)) normalizedUrl = 'https://' + normalizedUrl;\<close>
\<close>

definition normalizedUrl :: "string \<Rightarrow> string" where
  "normalizedUrl url =
     (let t = trim url in
      if exec_at scheme_re t = None then ''https://'' @ t else t)"

subsection \<open>Extracting e-mail addresses\<close>

definition is_alpha :: "char \<Rightarrow> bool" where
  "is_alpha c = (c \<in> set ''abcdefghijklmnopqrstuvwxyzABCDEFGHIJKLMNOPQRSTUVWXYZ'')"

definition is_digit :: "char \<Rightarrow> bool" where
  "is_digit c = (c \<in> set ''0123456789'')"

text \<open>\<^verbatim>\<open>[a-zA-Z0-9._%+-]\<close> and \<^verbatim>\<open>[a-zA-Z0-9.-]\<close>.\<close>

definition local_char :: "char \<Rightarrow> bool" where
  "local_char c = (is_alpha c \<or> is_digit c \<or> c \<in> set ''._%+-'')"

definition domain_char :: "char \<Rightarrow> bool" where
  "domain_char c = (is_alpha c \<or> is_digit c \<or> c \<in> set ''.-'')"

text \<open>\<^verbatim>\<open>/[a-zA-Z0-9._%+-]+@[a-zA-Z0-9.-]+\.[a-zA-Z]{2,}/g\<close>\<close>

definition emailRegex :: regex where
  "emailRegex =
     seq [Rep local_char 1, Chr CHR ''@'', Rep domain_char 1, Chr CHR ''.'', Rep is_alpha 2]"

text \<open>
  \<^verbatim>\<open>[...new Set(xs)]\<close>: a \<^verbatim>\<open>Set\<close> keeps its members in insertion order, and adding
  a member it already has changes nothing.
\<close>

definition spread_Set :: "'a list \<Rightarrow> 'a list" where
  "spread_Set xs = foldl (\<lambda>acc x. if x \<in> set acc then acc else acc @ [x]) [] xs"

text \<open>
  \<^verbatim>\<open>const emails = [...new Set(content.match(emailRegex) || [])].slice(0, 5);\<close>
\<close>

definition emails_of :: "string \<Rightarrow> string list" where
  "emails_of content =
     take 5 (spread_Set (case match_g emailRegex content of None \<Rightarrow> [] | Some ms \<Rightarrow> ms))"

subsection \<open>The load time\<close>

text \<open>
  JavaScript numbers are IEEE 754 doubles. A double is modelled by its exact value, a
  rational. \<open>div_double a b\<close> is the quotient \<^verbatim>\<open>a / b\<close> of integers \<open>a \<ge> 0\<close> and \<open>b > 0\<close>, rounded
  to the nearest double, a tie going to the even significand, for a quotient of a
  magnitude below \<open>2 ^ 53\<close> (and above the subnormal range): \<open>scale a b 0\<close> is the least
  \<open>k\<close> with \<open>2 ^ 52 \<le> a * 2 ^ k / b\<close>, so that the significand is the quotient
  \<open>a * 2 ^ k / b\<close> rounded to an integer, and the double is that integer over \<open>2 ^ k\<close>.
\<close>

function scale :: "int \<Rightarrow> int \<Rightarrow> nat \<Rightarrow> nat" where
  "scale a b k = (if a \<le> 0 \<or> 2 ^ 52 * b \<le> a * 2 ^ k then k else scale a b (Suc k))"
  by pat_completeness auto
termination
proof (relation "measure (\<lambda>(a, b, k). nat (2 ^ 52 * b - a * 2 ^ k))")
  show "wf (measure (\<lambda>(a, b, k). nat (2 ^ 52 * b - a * 2 ^ k)))"
    by simp
next
  fix a b :: int and k :: nat
  define x where "x = a * 2 ^ k"
  define c where "c = 2 ^ 52 * b"
  assume "\<not> (a \<le> 0 \<or> 2 ^ 52 * b \<le> a * 2 ^ k)"
  then have "0 < x" and "x < c"
    by (simp_all add: x_def c_def)
  then have "nat (c - 2 * x) < nat (c - x)"
    by arith
  moreover have "a * 2 ^ Suc k = 2 * x"
    by (simp add: x_def)
  ultimately have "nat (2 ^ 52 * b - a * 2 ^ Suc k) < nat (2 ^ 52 * b - a * 2 ^ k)"
    unfolding x_def c_def by metis
  then show "((a, b, Suc k), (a, b, k)) \<in> measure (\<lambda>(a, b, k). nat (2 ^ 52 * b - a * 2 ^ k))"
    by simp
qed

declare scale.simps [simp del]

definition round_half_even :: "int \<Rightarrow> int \<Rightarrow> int" where
  "round_half_even n d =
     (let q = n div d; r = n mod d
      in if 2 * r < d then q else if d < 2 * r then q + 1 else if even q then q else q + 1)"

definition div_double :: "int \<Rightarrow> int \<Rightarrow> rat" where
  "div_double a b =
     (let k = scale a b 0 in of_int (round_half_even (a * 2 ^ k) b) / 2 ^ k)"

text \<open>
  \<^verbatim>\<open>loadTime / 1000\<close> for an integer \<open>loadTime\<close>: the division of doubles is symmetric
  in the sign.
\<close>

definition seconds_of :: "int \<Rightarrow> rat" where
  "seconds_of loadTime =
     (if loadTime < 0 then - div_double (- loadTime) 1000 else div_double loadTime 1000)"

text \<open>
  \<^verbatim>\<open>parseFloat(x.toFixed(2))\<close>. \<^verbatim>\<open>Number.prototype.toFixed\<close> prints, for \<open>x \<ge> 0\<close>, the
  integer \<open>n\<close> for which \<open>n / 100 - x\<close> is as close to zero as possible (the larger \<open>n\<close>
  of two) with a decimal point before its last two digits, and works on \<open>- x\<close> with a
  minus sign in front of the digits when \<open>x < 0\<close>. The number read back is written
  \<open>n / 100\<close> again when the response is serialised, so the model keeps that value.
\<close>

definition toFixed2 :: "rat \<Rightarrow> rat" where
  "toFixed2 x =
     (if x < 0 then - (of_int \<lfloor>100 * (- x) + 1 / 2\<rfloor> / 100)
      else of_int \<lfloor>100 * x + 1 / 2\<rfloor> / 100)"

text \<open>\<^verbatim>\<open>load_time: parseFloat((loadTime / 1000).toFixed(2))\<close>\<close>

definition load_time_of :: "int \<Rightarrow> rat" where
  "load_time_of loadTime = toFixed2 (seconds_of loadTime)"

subsection \<open>Values of the request body\<close>

text \<open>
  The body parsed by \<^verbatim>\<open>express.json()\<close> is a JSON object, here the list of its members;
  of a key that occurs twice the last value counts, and a key that does not occur reads
  as \<^verbatim>\<open>undefined\<close>.
\<close>

datatype js_value =
    JUndefined
  | JNull
  | JBool bool
  | JNumber rat
  | JString string
  | JArray "js_value list"
  | JObject "(string \<times> js_value) list"

definition destructure :: "(string \<times> js_value) list \<Rightarrow> string \<Rightarrow> js_value" where
  "destructure body k = (case map_of (rev body) k of None \<Rightarrow> JUndefined | Some v \<Rightarrow> v)"

fun truthy :: "js_value \<Rightarrow> bool" where
  "truthy JUndefined = False"
| "truthy JNull = False"
| "truthy (JBool b) = b"
| "truthy (JNumber x) = (x \<noteq> 0)"
| "truthy (JString s) = (s \<noteq> [])"
| "truthy (JArray _) = True"
| "truthy (JObject _) = True"

fun typeof_js :: "js_value \<Rightarrow> string" where
  "typeof_js JUndefined = ''undefined''"
| "typeof_js JNull = ''object''"
| "typeof_js (JBool _) = ''boolean''"
| "typeof_js (JNumber _) = ''number''"
| "typeof_js (JString _) = ''string''"
| "typeof_js (JArray _) = ''object''"
| "typeof_js (JObject _) = ''object''"

text \<open>The code units of a value that is a string.\<close>

fun str :: "js_value \<Rightarrow> string" where
  "str (JString s) = s"
| "str _ = []"

subsection \<open>Errors, effects and the browser\<close>

text \<open>
  What the handler catches are \<^verbatim>\<open>Error\<close> objects (of Puppeteer, or a \<^verbatim>\<open>TypeError\<close> of
  the engine): each has a \<^verbatim>\<open>name\<close> and a \<^verbatim>\<open>message\<close>, both strings.
\<close>

datatype js_error = Error (name: string) (message: string)

text \<open>
  The calls on the browser and the lines written by \<^verbatim>\<open>console.error\<close>, in the order in
  which a run of the handler makes them.
\<close>

datatype effect =
    NewPage
  | SetUserAgent
  | SetRequestInterception
  | Goto string
  | ReadHeaders
  | ReadSecurityDetails
  | Content
  | EvalH1
  | PageClose
  | ConsoleError "string list"

text \<open>
  The navigation response: \<^verbatim>\<open>headers()\<close> and \<^verbatim>\<open>securityDetails()\<close> return or throw;
  the security details are \<open>None\<close> for \<^verbatim>\<open>null\<close>.
\<close>

record response =
  headers :: "js_error + unit"
  securityDetails :: "js_error + string option"

text \<open>
  What the platform does during one run of the handler: whether \<^verbatim>\<open>new URL(s)\<close> returns,
  the outcome of each awaited call on the browser (\<open>Inl\<close> an error thrown, \<open>Inr\<close> the
  value), the error texts of the sub-requests that fail while \<^verbatim>\<open>page.goto\<close> is pending,
  in the order of their \<^verbatim>\<open>requestfailed\<close> events, the two readings of \<^verbatim>\<open>Date.now()\<close>,
  and the outcome of the \<open>k\<close>-th call of \<^verbatim>\<open>page.close()\<close>, counted from 0.
  \<^verbatim>\<open>page.goto\<close> may resolve with \<^verbatim>\<open>null\<close>, here \<open>None\<close>.
\<close>

record platform =
  new_URL :: "string \<Rightarrow> bool"
  newPage :: "js_error + unit"
  setUserAgent :: "js_error + unit"
  setRequestInterception :: "js_error + unit"
  requestfailed :: "string list"
  goto :: "js_error + response option"
  now_start :: int
  now_end :: int
  content :: "js_error + string"
  eval_h1 :: "js_error + nat"
  close :: "nat \<Rightarrow> js_error + unit"

type_synonym 'a io = "effect list \<times> (js_error + 'a)"

text \<open>
  One step of a \<^verbatim>\<open>try\<close> block: the effect happens; an error ends the block, a value goes
  to the rest of the block.
\<close>

definition await :: "effect \<Rightarrow> js_error + 'a \<Rightarrow> ('a \<Rightarrow> 'b io) \<Rightarrow> 'b io" where
  "await ef r k =
     (case r of
        Inl e \<Rightarrow> ([ef], Inl e)
      | Inr x \<Rightarrow> (case k x of (tr, y) \<Rightarrow> (ef # tr, y)))"

subsection \<open>The SSL signal and the SSL status\<close>

text \<open>
  \<^verbatim>\<open>page.on('requestfailed', (request) => {
     if (request.failure().errorText.includes('SSL')) sslError = request.failure().errorText;
   });\<close>
  The listener, as a step on the variable \<^verbatim>\<open>sslError\<close> (\<open>None\<close> for \<^verbatim>\<open>null\<close>).
\<close>

definition on_requestfailed :: "string option \<Rightarrow> string \<Rightarrow> string option" where
  "on_requestfailed sslError errorText =
     (if js_includes errorText ''SSL'' then Some errorText else sslError)"

definition sslError_after :: "string list \<Rightarrow> string option" where
  "sslError_after errorTexts = foldl on_requestfailed None errorTexts"

text \<open>\<^verbatim>\<open>!sslError\<close>: \<^verbatim>\<open>null\<close> and the empty string are falsy.\<close>

definition not_js :: "string option \<Rightarrow> bool" where
  "not_js v = (case v of None \<Rightarrow> True | Some t \<Rightarrow> t = [])"

text \<open>
  \<^verbatim>\<open>let sslStatus = isSSL;
   if (isSSL && !sslError) {
     try { const securityDetails = response.securityDetails();
           sslStatus = securityDetails !== null; }
     catch (e) { sslStatus = true; }
   }\<close>
  Reading a property of a \<^verbatim>\<open>null\<close> response throws a \<^verbatim>\<open>TypeError\<close>, which the inner
  \<^verbatim>\<open>catch\<close> takes.
\<close>

definition ssl_check :: "bool \<Rightarrow> string option \<Rightarrow> response option \<Rightarrow> effect list \<times> bool" where
  "ssl_check isSSL sslError resp =
     (if isSSL \<and> not_js sslError then
        (case resp of
           None \<Rightarrow> ([], True)
         | Some r \<Rightarrow>
             (case securityDetails r of
                Inl e \<Rightarrow> ([ReadSecurityDetails], True)
              | Inr details \<Rightarrow> ([ReadSecurityDetails], details \<noteq> None)))
      else ([], isSSL))"

subsection \<open>Classifying a caught error\<close>

definition errorMessage :: "js_error \<Rightarrow> string" where
  "errorMessage error =
     (if name error = ''TimeoutError'' then ''Page load timed out after 30 seconds''
      else if js_includes (message error) ''net::ERR_NAME_NOT_RESOLVED''
        then ''Domain does not exist''
      else if js_includes (message error) ''net::ERR_CONNECTION_REFUSED''
        then ''Connection refused by server''
      else if js_includes (message error) ''net::ERR_CERT'' then ''SSL certificate error''
      else if js_includes (message error) ''net::ERR_BLOCKED_BY_CLIENT''
        then ''Request blocked by client''
      else ''Unknown error during audit'')"

subsection \<open>The handler\<close>

record audit_data =
  emails :: "string list"
  load_time :: rat
  ssl :: bool
  h1_count :: nat

record http_response =
  status :: nat
  success :: bool
  data :: "audit_data option"
  error :: "string option"

definition failure :: "nat \<Rightarrow> string \<Rightarrow> http_response" where
  "failure code msg = \<lparr>status = code, success = False, data = None, error = Some msg\<rparr>"

text \<open>
  \<^verbatim>\<open>response?.headers() || {}\<close>: nothing is read of a \<^verbatim>\<open>null\<close> response.
\<close>

definition read_headers :: "response option \<Rightarrow> (unit \<Rightarrow> 'b io) \<Rightarrow> 'b io" where
  "read_headers resp k =
     (case resp of None \<Rightarrow> k () | Some r \<Rightarrow> await ReadHeaders (headers r) k)"

text \<open>
  The \<^verbatim>\<open>try\<close> block of the handler, from \<^verbatim>\<open>browser.newPage()\<close> to the first
  \<^verbatim>\<open>page.close()\<close>: the effects made, and the error thrown or the data of the audit.
  The listener is registered before \<^verbatim>\<open>page.goto\<close> is awaited and runs once for each
  sub-request that fails while it is pending, so \<^verbatim>\<open>sslError\<close> holds
  \<open>sslError_after (requestfailed p)\<close> when \<^verbatim>\<open>page.goto\<close> resolves.
\<close>

definition try_block :: "platform \<Rightarrow> string \<Rightarrow> audit_data io" where
  "try_block p url =
     await NewPage (newPage p) (\<lambda>_.
     await SetUserAgent (setUserAgent p) (\<lambda>_.
     await SetRequestInterception (setRequestInterception p) (\<lambda>_.
     await (Goto url) (goto p) (\<lambda>resp.
       let sslError = sslError_after (requestfailed p);
           loadTime = now_end p - now_start p
       in read_headers resp (\<lambda>_.
          let isSSL = startsWith url ''https://'';
              (reads, sslStatus) = ssl_check isSSL sslError resp
          in case
              await Content (content p) (\<lambda>html.
              await EvalH1 (eval_h1 p) (\<lambda>h1Count.
              await PageClose (close p 0) (\<lambda>_.
                ([], Inr \<lparr>emails = emails_of html, load_time = load_time_of loadTime,
                          ssl = sslStatus, h1_count = h1Count\<rparr>))))
             of (tr, r) \<Rightarrow> (reads @ tr, r))))))"

text \<open>
  The \<^verbatim>\<open>catch\<close> block: the error is logged; \<^verbatim>\<open>page\<close> is set once
  \<^verbatim>\<open>browser.newPage()\<close> has returned, and then \<^verbatim>\<open>page.close()\<close> is called, in a
  \<^verbatim>\<open>try\<close> of its own whose \<^verbatim>\<open>catch\<close> logs the failure; the response is 200 with the
  message of the class of the error. \<open>tr\<close> is what the \<^verbatim>\<open>try\<close> block did before it
  threw: the call of \<^verbatim>\<open>page.close()\<close> here is the first one unless the \<^verbatim>\<open>try\<close> block
  had reached its own.
\<close>

definition catch_block ::
  "platform \<Rightarrow> string \<Rightarrow> effect list \<Rightarrow> js_error \<Rightarrow> effect list \<times> http_response" where
  "catch_block p url tr err =
     (let logged = [ConsoleError [''Audit failed for'', url, '':'', message err]];
          closing =
            (if isl (newPage p) then []
             else (case close p (count_list tr PageClose) of
                     Inl closeError \<Rightarrow>
                       [PageClose, ConsoleError [''Failed to close page:'', message closeError]]
                   | Inr _ \<Rightarrow> [PageClose]))
      in (logged @ closing, failure 200 (errorMessage err)))"

text \<open>
  \<^verbatim>\<open>app.post('/audit', express.json(), async (req, res) => { ... })\<close>: the effects of
  one request and the response sent.
\<close>

definition audit :: "platform \<Rightarrow> (string \<times> js_value) list \<Rightarrow> effect list \<times> http_response" where
  "audit p body =
     (let url = destructure body ''url'' in
      if \<not> truthy url \<or> typeof_js url \<noteq> ''string''
      then ([], failure 400 ''URL is required and must be a string'')
      else
        let url' = normalizedUrl (str url) in
        if \<not> new_URL p url' then ([], failure 400 ''Invalid URL format'')
        else
          (case try_block p url' of
             (tr, Inr d) \<Rightarrow>
               (tr, \<lparr>status = 200, success = True, data = Some d, error = None\<rparr>)
           | (tr, Inl err) \<Rightarrow>
               (case catch_block p url' tr err of (tr', res) \<Rightarrow> (tr @ tr', res))))"

subsection \<open>The specification's reading of the normalisation\<close>

text \<open>
  The specification's words for the test of the scheme: the string has an \<^verbatim>\<open>http://\<close>
  or \<^verbatim>\<open>https://\<close> scheme, letters compared without regard to case.
\<close>

definition lower :: "char \<Rightarrow> char" where
  "lower c =
     (case map_of (zip ''ABCDEFGHIJKLMNOPQRSTUVWXYZ'' ''abcdefghijklmnopqrstuvwxyz'') c of
        Some l \<Rightarrow> l
      | None \<Rightarrow> c)"

definition has_scheme :: "string \<Rightarrow> bool" where
  "has_scheme t =
     (startsWith (map lower t) ''http://'' \<or> startsWith (map lower t) ''https://'')"

text \<open>A string that neither starts nor ends with white space.\<close>

definition trimmed :: "string \<Rightarrow> bool" where
  "trimmed t = (t = [] \<or> (\<not> is_space (hd t) \<and> \<not> is_space (last t)))"

subsection \<open>The specification's reading of the e-mail extraction\<close>

text \<open>The strings that a regular expression matches as a whole.\<close>

primrec lang :: "regex \<Rightarrow> string set" where
  "lang (Chr c) = {[c]}"
| "lang (ChrI c) = {[x] |x. canonicalize x = canonicalize c}"
| "lang (Opt r) = insert [] (lang r)"
| "lang (Cat a b) = {u @ v |u v. u \<in> lang a \<and> v \<in> lang b}"
| "lang (Rep P n) = {w. n \<le> length w \<and> list_all P w}"

text \<open>
  The specification's words for the shape of an address: a local part over letters,
  digits and \<^verbatim>\<open>._%+-\<close>, an \<^verbatim>\<open>@\<close>, a domain over letters, digits, dots and hyphens, a
  dot, and a top-level domain of at least two letters.
\<close>

definition email_shape :: "string \<Rightarrow> bool" where
  "email_shape m =
     (\<exists>l d t. m = l @ ''@'' @ d @ ''.'' @ t \<and>
        l \<noteq> [] \<and> list_all local_char l \<and>
        d \<noteq> [] \<and> list_all domain_char d \<and>
        2 \<le> length t \<and> list_all is_alpha t)"

text \<open>
  Deduplication that keeps the order in which the members are first seen: the entries
  of the list that do not occur at an earlier index.
\<close>

definition first_seen :: "'a list \<Rightarrow> 'a list" where
  "first_seen xs =
     map (\<lambda>i. xs ! i) (filter (\<lambda>i. xs ! i \<notin> set (take i xs)) [0 ..< length xs])"

subsection \<open>Concrete runs\<close>

text \<open>
  A parser of URLs for the concrete runs below: it accepts an \<^verbatim>\<open>http\<close> or \<^verbatim>\<open>https\<close>
  scheme followed by a host that is not empty and holds no white space. On the URLs of
  these runs it agrees with the platform's \<^verbatim>\<open>new URL\<close>, which throws on
  \<^verbatim>\<open>'https://'\<close> and accepts \<^verbatim>\<open>'https://example.com'\<close>.
\<close>

definition sample_URL :: "string \<Rightarrow> bool" where
  "sample_URL s =
     (case exec_at scheme_re s of
        None \<Rightarrow> False
      | Some rest \<Rightarrow> rest \<noteq> [] \<and> list_all (\<lambda>c. \<not> is_space c) rest)"

text \<open>
  A run in which every call on the browser succeeds: the page is served over TLS, has
  two headings and names two addresses, one of them twice, and loads in 1234 ms.
\<close>

definition quiet :: platform where
  "quiet =
     \<lparr>new_URL = sample_URL,
      newPage = Inr (),
      setUserAgent = Inr (),
      setRequestInterception = Inr (),
      requestfailed = [],
      goto = Inr (Some \<lparr>headers = Inr (), securityDetails = Inr (Some ''TLS 1.3'')\<rparr>),
      now_start = 1700000000000,
      now_end = 1700000001234,
      content = Inr ''<h1>a@b.com</h1><h1>a@b.com, c@d.org</h1>'',
      eval_h1 = Inr 2,
      close = (\<lambda>k. Inr ())\<rparr>"

text \<open>The browser has lost its target: every \<^verbatim>\<open>page.close()\<close> rejects.\<close>

definition target_closed :: js_error where
  "target_closed = Error ''Error'' ''Protocol error (Target.closeTarget): Target closed''"

section \<open>Properties\<close>

subsection \<open>The scheme test is the specification's\<close>

lemma canonicalize_simps:
  "canonicalize CHR ''h'' = CHR ''H''" "canonicalize CHR ''t'' = CHR ''T''"
  "canonicalize CHR ''p'' = CHR ''P''" "canonicalize CHR ''s'' = CHR ''S''"
  by (simp_all add: canonicalize_def)

lemma canon_eq:
  "canonicalize x = CHR ''H'' \<longleftrightarrow> x = CHR ''h'' \<or> x = CHR ''H''"
  "canonicalize x = CHR ''T'' \<longleftrightarrow> x = CHR ''t'' \<or> x = CHR ''T''"
  "canonicalize x = CHR ''P'' \<longleftrightarrow> x = CHR ''p'' \<or> x = CHR ''P''"
  "canonicalize x = CHR ''S'' \<longleftrightarrow> x = CHR ''s'' \<or> x = CHR ''S''"
  by (simp_all add: canonicalize_def)

lemma lower_eq:
  "lower x = CHR ''h'' \<longleftrightarrow> x = CHR ''h'' \<or> x = CHR ''H''"
  "lower x = CHR ''t'' \<longleftrightarrow> x = CHR ''t'' \<or> x = CHR ''T''"
  "lower x = CHR ''p'' \<longleftrightarrow> x = CHR ''p'' \<or> x = CHR ''P''"
  "lower x = CHR ''s'' \<longleftrightarrow> x = CHR ''s'' \<or> x = CHR ''S''"
  "lower x = CHR '':'' \<longleftrightarrow> x = CHR '':''"
  "lower x = CHR ''/'' \<longleftrightarrow> x = CHR ''/''"
  by (simp_all add: lower_def)

lemma rmatch_Cat_Chr:
  "rmatch (Cat (Chr c) r) s = (case s of [] \<Rightarrow> [] | x # t \<Rightarrow> if x = c then rmatch r t else [])"
  by (cases s) auto

lemma scheme_tail: "rmatch (Cat (Chr CHR '':'') (Cat (Chr CHR ''/'') (Chr CHR ''/''))) t \<noteq> []
   \<longleftrightarrow> startsWith (map lower t) ''://''"
  by (simp add: rmatch_Cat_Chr startsWith_def lower_eq del: rmatch.simps(4) split: list.splits)

lemma startsWith_Nil: "startsWith s [] = True"
  by (simp add: startsWith_def)

lemma startsWith_map_Cons:
  "startsWith (map lower t) (c # p) \<longleftrightarrow>
     (case t of [] \<Rightarrow> False | x # r \<Rightarrow> lower x = c \<and> startsWith (map lower r) p)"
  by (cases t) (auto simp: startsWith_def)

lemma nonempty_Cat_ChrI:
  "rmatch (Cat (ChrI c) R) t \<noteq> [] \<longleftrightarrow>
     (case t of [] \<Rightarrow> False | x # r \<Rightarrow> canonicalize x = canonicalize c \<and> rmatch R r \<noteq> [])"
  by (cases t) auto

lemma nonempty_Cat_Opt:
  "rmatch (Cat (Opt a) R) t \<noteq> [] \<longleftrightarrow> rmatch (Cat a R) t \<noteq> [] \<or> rmatch R t \<noteq> []"
  by simp

lemma scheme_re_nonempty: "rmatch scheme_re t \<noteq> [] \<longleftrightarrow> has_scheme t"
proof -
  have tail: "startsWith (map lower r) (CHR ''s'' # ''://'') \<longleftrightarrow>
      (case r of [] \<Rightarrow> False | x # r' \<Rightarrow> lower x = CHR ''s'' \<and> startsWith (map lower r') ''://'')" for r
    by (rule startsWith_map_Cons)
  show ?thesis
    unfolding scheme_re_def seq_def has_scheme_def
    apply (simp add: nonempty_Cat_ChrI nonempty_Cat_Opt scheme_tail startsWith_map_Cons
        startsWith_Nil canonicalize_simps canon_eq lower_eq del: rmatch.simps split: list.splits)
    apply blast
    done
qed

lemma exec_at_scheme: "exec_at scheme_re t = None \<longleftrightarrow> \<not> has_scheme t"
  using scheme_re_nonempty [of t] by (auto simp: exec_at_def neq_Nil_conv split: list.splits)

subsection \<open>Trimming and normalisation\<close>

lemma trimmed_trim: "trimmed (trim s)"
proof -
  define u where "u = dropWhile is_space s"
  define v where "v = dropWhile is_space (rev u)"
  have t: "trim s = rev v"
    by (simp add: trim_def u_def v_def)
  show ?thesis
  proof (cases "v = []")
    case True
    then show ?thesis by (simp add: t trimmed_def)
  next
    case False
    then have "\<not> is_space (hd v)"
      unfolding v_def by (rule hd_dropWhile)
    then have l: "\<not> is_space (last (rev v))"
      using False by (simp add: last_rev)
    obtain w where w: "rev u = w @ v"
      unfolding v_def by (metis takeWhile_dropWhile_id)
    then have u: "u = rev v @ rev w"
      by (metis rev_append rev_rev_ident)
    with False have "u \<noteq> []" by simp
    then have "\<not> is_space (hd u)"
      unfolding u_def by (rule hd_dropWhile)
    moreover have "hd u = hd (rev v)"
      using u False by simp
    ultimately show ?thesis
      using l False by (simp add: t trimmed_def)
  qed
qed

lemma trim_trimmed: "trimmed t \<Longrightarrow> trim t = t"
proof (cases "t = []")
  case True
  then show ?thesis by (simp add: trim_def)
next
  case False
  assume "trimmed t"
  with False have h: "\<not> is_space (hd t)" and l: "\<not> is_space (last t)"
    by (simp_all add: trimmed_def)
  from False h have "dropWhile is_space t = t"
    by (cases t) simp_all
  moreover from False l have "dropWhile is_space (rev t) = rev t"
    by (cases "rev t") (simp_all add: last_rev [symmetric] hd_rev)
  ultimately show ?thesis
    by (simp add: trim_def)
qed

lemma trim_decompose:
  "\<exists>a b. s = a @ trim s @ b \<and> list_all is_space a \<and> list_all is_space b"
proof -
  define a where "a = takeWhile is_space s"
  define u where "u = dropWhile is_space s"
  define b where "b = rev (takeWhile is_space (rev u))"
  have "rev u = takeWhile is_space (rev u) @ dropWhile is_space (rev u)"
    by simp
  then have "rev (rev u) = rev (takeWhile is_space (rev u) @ dropWhile is_space (rev u))"
    by (rule arg_cong)
  then have "u = trim s @ b"
    by (simp add: trim_def u_def b_def del: takeWhile_dropWhile_id)
  moreover have "s = a @ u"
    by (simp add: a_def u_def)
  moreover have "list_all is_space a" "list_all is_space b"
    by (auto simp: a_def b_def list_all_iff dest: set_takeWhileD)
  ultimately show ?thesis
    by blast
qed

lemma trimmed_https: "trimmed t \<Longrightarrow> trimmed (''https://'' @ t)"
  by (auto simp: trimmed_def is_space_def)

lemma has_scheme_https: "has_scheme (''https://'' @ t)"
  by (simp add: has_scheme_def startsWith_def lower_def)

lemma normalizedUrl_has_scheme:
  "normalizedUrl s = (if has_scheme (trim s) then trim s else ''https://'' @ trim s)"
  by (simp add: normalizedUrl_def exec_at_scheme Let_def)

lemma normalizedUrl_idem: "normalizedUrl (normalizedUrl s) = normalizedUrl s"
proof (cases "has_scheme (trim s)")
  case True
  then show ?thesis
    by (simp add: normalizedUrl_has_scheme trim_trimmed trimmed_trim)
next
  case False
  define u where "u = ''https://'' @ trim s"
  have "trimmed u"
    unfolding u_def by (intro trimmed_https trimmed_trim)
  then have "trim u = u"
    by (rule trim_trimmed)
  moreover have "has_scheme u"
    unfolding u_def by (rule has_scheme_https)
  ultimately have "normalizedUrl u = u"
    by (simp add: normalizedUrl_has_scheme)
  moreover from False have "normalizedUrl s = u"
    by (simp add: normalizedUrl_has_scheme u_def)
  ultimately show ?thesis
    by simp
qed

text \<open>
  C6. The normalised URL is the trimmed input (the input without the white space at its
  two ends), with \<^verbatim>\<open>https://\<close> in front exactly when the trimmed input has no
  \<^verbatim>\<open>http://\<close> or \<^verbatim>\<open>https://\<close> scheme (letters compared without regard to case);
  normalising twice is normalising once; \<^verbatim>\<open>http://x.com\<close> stays as it is and
  \<^verbatim>\<open>example.com\<close> becomes \<^verbatim>\<open>https://example.com\<close>.
\<close>

theorem normalizedUrl_scheme_idempotent:
  "normalizedUrl url = (if has_scheme (trim url) then trim url else ''https://'' @ trim url) \<and>
   (\<exists>a b. url = a @ trim url @ b \<and> list_all is_space a \<and> list_all is_space b) \<and>
   trimmed (trim url) \<and>
   normalizedUrl (normalizedUrl url) = normalizedUrl url \<and>
   normalizedUrl ''http://x.com'' = ''http://x.com'' \<and>
   normalizedUrl ''example.com'' = ''https://example.com''"
proof -
  have "normalizedUrl ''http://x.com'' = ''http://x.com''"
    by (simp add: normalizedUrl_def trim_def is_space_def exec_at_def scheme_re_def seq_def
        canonicalize_def)
  moreover have "normalizedUrl ''example.com'' = ''https://example.com''"
    by (simp add: normalizedUrl_def trim_def is_space_def exec_at_def scheme_re_def seq_def
        canonicalize_def)
  ultimately show ?thesis
    using normalizedUrl_has_scheme [of url] normalizedUrl_idem [of url] trim_decompose [of url]
      trimmed_trim [of url]
    by simp
qed

theorem normalizedUrl_scheme_idempotent_witness:
  "normalizedUrl '' Example.com  '' = ''https://Example.com'' \<and>
   normalizedUrl (normalizedUrl '' Example.com  '') = ''https://Example.com''"
proof -
  let ?url = "'' Example.com  ''"
  have t: "trim ?url = ''Example.com''"
    by (simp add: trim_def is_space_def)
  have h: "\<not> has_scheme ''Example.com''"
    by (simp add: has_scheme_def startsWith_def lower_def)
  have a: "normalizedUrl ?url = (if has_scheme (trim ?url) then trim ?url else ''https://'' @ trim ?url)"
    and b: "normalizedUrl (normalizedUrl ?url) = normalizedUrl ?url"
    using normalizedUrl_scheme_idempotent [of ?url] by blast+
  have c: "normalizedUrl ?url = ''https://Example.com''"
    unfolding a t using h by simp
  have "normalizedUrl (normalizedUrl ?url) = normalizedUrl ?url"
    by (rule b)
  also have "\<dots> = ''https://Example.com''"
    by (rule c)
  finally show ?thesis
    using c by blast
qed

subsection \<open>The matcher matches the language of its expression\<close>

lemma rmatch_sound: "r \<in> set (rmatch re s) \<Longrightarrow> \<exists>m. s = m @ r \<and> m \<in> lang re"
proof (induction re arbitrary: s r)
  case (Chr c)
  then show ?case by (cases s) (auto split: if_splits)
next
  case (ChrI c)
  then show ?case by (cases s) (auto split: if_splits)
next
  case (Opt re)
  then show ?case by fastforce
next
  case (Cat a b)
  from Cat.prems obtain r1 where r1: "r1 \<in> set (rmatch a s)" and r: "r \<in> set (rmatch b r1)"
    by auto
  from Cat.IH(1) [OF r1] obtain m1 where m1: "s = m1 @ r1" "m1 \<in> lang a" by blast
  from Cat.IH(2) [OF r] obtain m2 where m2: "r1 = m2 @ r" "m2 \<in> lang b" by blast
  from m1 m2 have "s = (m1 @ m2) @ r" "m1 @ m2 \<in> lang (Cat a b)"
    by auto
  then show ?case by blast
next
  case (Rep P n)
  then obtain k where k: "n \<le> k" "k \<le> length (takeWhile P s)" "r = drop k s"
    by auto
  have "take k s = take k (takeWhile P s @ dropWhile P s)"
    by simp
  also have "\<dots> = take k (takeWhile P s)"
    using k(2) by (simp del: takeWhile_dropWhile_id)
  finally have "set (take k s) \<subseteq> set (takeWhile P s)"
    by (simp add: set_take_subset)
  then have "list_all P (take k s)"
    by (auto simp: list_all_iff dest: set_takeWhileD)
  moreover have "length (take k s) = k"
    using k(2) length_takeWhile_le [of P s] by simp
  ultimately have "take k s \<in> lang (Rep P n)"
    using k(1) by simp
  moreover have "s = take k s @ r"
    by (simp add: k(3))
  ultimately show ?case by blast
qed

lemma exec_at_sound:
  assumes "exec_at re s = Some rest"
  shows "\<exists>m. s = m @ rest \<and> m \<in> lang re"
proof -
  from assms have "rest \<in> set (rmatch re s)"
    by (auto simp: exec_at_def split: list.splits)
  then show ?thesis by (rule rmatch_sound)
qed

lemma match_all_sound:
  "m \<in> set (match_all re s) \<Longrightarrow> m \<in> lang re \<and> (\<exists>a b. s = a @ m @ b)"
proof (induction re s rule: match_all.induct)
  case (1 r s)
  show ?case
  proof (cases "exec_at r s")
    case None
    with "1.prems" have ne: "s \<noteq> []" and m: "m \<in> set (match_all r (tl s))"
      by (auto simp: match_all.simps [of r s] split: if_splits)
    from "1.IH"(1) [OF None ne m] obtain a b where "m \<in> lang r" "tl s = a @ m @ b"
      by blast
    with ne have "s = (hd s # a) @ m @ b"
      by (metis append_Cons list.collapse)
    with \<open>m \<in> lang r\<close> show ?thesis by blast
  next
    case (Some rest)
    from exec_at_sound [OF Some] obtain m0 where m0: "s = m0 @ rest" "m0 \<in> lang r"
      by blast
    show ?thesis
    proof (cases "length rest < length s")
      case True
      with Some "1.prems" have "m = take (length s - length rest) s \<or> m \<in> set (match_all r rest)"
        by (auto simp: match_all.simps [of r s])
      then show ?thesis
      proof
        assume "m = take (length s - length rest) s"
        with m0 have "m = m0" by simp
        with m0 have "s = [] @ m @ rest" by simp
        with m0 \<open>m = m0\<close> show ?thesis by blast
      next
        assume "m \<in> set (match_all r rest)"
        from "1.IH"(2) [OF Some True this] obtain a b where "m \<in> lang r" "rest = a @ m @ b"
          by blast
        with m0 have "s = (m0 @ a) @ m @ b" by simp
        with \<open>m \<in> lang r\<close> show ?thesis by blast
      qed
    next
      case False
      with m0 have "m0 = []" by (metis length_append less_add_same_cancel2 length_greater_0_conv)
      from False Some "1.prems" have "m = [] \<or> (s \<noteq> [] \<and> m \<in> set (match_all r (tl s)))"
        by (auto simp: match_all.simps [of r s] split: if_splits)
      then show ?thesis
      proof
        assume "m = []"
        with m0 \<open>m0 = []\<close> have "m \<in> lang r" "s = [] @ m @ s" by simp_all
        then show ?thesis by blast
      next
        assume a: "s \<noteq> [] \<and> m \<in> set (match_all r (tl s))"
        from "1.IH"(3) [OF Some False] a obtain a' b where "m \<in> lang r" "tl s = a' @ m @ b"
          by blast
        with a have "s = (hd s # a') @ m @ b"
          by (metis append_Cons list.collapse)
        with \<open>m \<in> lang r\<close> show ?thesis by blast
      qed
    qed
  qed
qed

lemma lang_emailRegex: "m \<in> lang emailRegex \<Longrightarrow> email_shape m"
  unfolding emailRegex_def seq_def email_shape_def
  by simp (metis Suc_le_eq length_greater_0_conv)

text \<open>Conversely, the matcher finds every match: it fails only where no string of the language starts.\<close>

lemma rmatch_complete: "m \<in> lang re \<Longrightarrow> r \<in> set (rmatch re (m @ r))"
proof (induction re arbitrary: m r)
  case (Chr c)
  then show ?case by simp
next
  case (ChrI c)
  then show ?case by auto
next
  case (Opt re)
  then show ?case by auto
next
  case (Cat a b)
  from Cat.prems obtain u v where m: "m = u @ v" and u: "u \<in> lang a" and v: "v \<in> lang b"
    by auto
  from Cat.IH(1) [OF u] have "v @ r \<in> set (rmatch a (u @ v @ r))" .
  moreover from Cat.IH(2) [OF v] have "r \<in> set (rmatch b (v @ r))" .
  ultimately show ?case
    unfolding m by auto
next
  case (Rep P n)
  then have n: "n \<le> length m" and P: "\<forall>c \<in> set m. P c"
    by (simp_all add: list_all_iff)
  from P have "takeWhile P (m @ r) = m @ takeWhile P r"
    by (simp add: takeWhile_append2)
  then have "length m \<le> length (takeWhile P (m @ r))"
    by simp
  with n have "length m \<in> set (rev [n ..< Suc (length (takeWhile P (m @ r)))])"
    by auto
  then have "drop (length m) (m @ r) \<in> (\<lambda>k. drop k (m @ r)) ` set (rev [n ..< Suc (length (takeWhile P (m @ r)))])"
    by (rule imageI)
  then have "drop (length m) (m @ r) \<in> set (rmatch (Rep P n) (m @ r))"
    by (simp only: rmatch.simps set_map)
  then show ?case
    by simp
qed

lemma exec_at_complete: "m \<in> lang re \<Longrightarrow> exec_at re (m @ r) \<noteq> None"
  using rmatch_complete [of m re r] by (auto simp: exec_at_def split: list.splits)

lemma match_all_complete:
  "m \<in> lang re \<Longrightarrow> match_all re (a @ m @ b) \<noteq> []"
proof (induction a)
  case Nil
  from exec_at_complete [OF Nil, of b] obtain rest where "exec_at re (m @ b) = Some rest"
    by auto
  then show ?case
    by (subst match_all.simps) simp
next
  case (Cons x a)
  show ?case
  proof (cases "exec_at re (x # a @ m @ b)")
    case None
    with Cons show ?thesis
      by (subst match_all.simps) simp
  next
    case (Some rest)
    then show ?thesis
      by (subst match_all.simps) simp
  qed
qed

lemma lang_CatI: "u \<in> lang a \<Longrightarrow> v \<in> lang b \<Longrightarrow> u @ v \<in> lang (Cat a b)"
  by auto

lemma email_shape_lang:
  assumes "email_shape m"
  shows "m \<in> lang emailRegex"
proof -
  from assms obtain l d t where m: "m = l @ ''@'' @ d @ ''.'' @ t"
    and l: "l \<noteq> []" "list_all local_char l"
    and d: "d \<noteq> []" "list_all domain_char d"
    and t: "2 \<le> length t" "list_all is_alpha t"
    unfolding email_shape_def by blast
  from l have "l \<in> lang (Rep local_char 1)"
    by (simp add: Suc_le_eq)
  moreover have "''@'' \<in> lang (Chr CHR ''@'')"
    by simp
  moreover from d have "d \<in> lang (Rep domain_char 1)"
    by (simp add: Suc_le_eq)
  moreover have "''.'' \<in> lang (Chr CHR ''.'')"
    by simp
  moreover from t have "t \<in> lang (Rep is_alpha 2)"
    by simp
  ultimately have "l @ ''@'' @ d @ ''.'' @ t \<in>
      lang (Cat (Rep local_char 1) (Cat (Chr CHR ''@'') (Cat (Rep domain_char 1)
        (Cat (Chr CHR ''.'') (Rep is_alpha 2)))))"
    by (intro lang_CatI)
  moreover have "emailRegex =
      Cat (Rep local_char 1) (Cat (Chr CHR ''@'') (Cat (Rep domain_char 1)
        (Cat (Chr CHR ''.'') (Rep is_alpha 2))))"
    by (simp add: emailRegex_def seq_def)
  ultimately show ?thesis
    unfolding m by (simp only:)
qed

subsection \<open>Deduplication\<close>

lemma spread_Set_snoc_raw:
  "spread_Set (xs @ [x]) =
     (if x \<in> set (spread_Set xs) then spread_Set xs else spread_Set xs @ [x])"
  by (simp add: spread_Set_def)

lemma set_spread_Set: "set (spread_Set xs) = set xs"
proof (induction xs rule: rev_induct)
  case Nil
  show ?case by (simp add: spread_Set_def)
next
  case (snoc x xs)
  then show ?case by (auto simp: spread_Set_snoc_raw)
qed

lemma distinct_spread_Set: "distinct (spread_Set xs)"
proof (induction xs rule: rev_induct)
  case Nil
  show ?case by (simp add: spread_Set_def)
next
  case (snoc x xs)
  then show ?case by (simp add: spread_Set_snoc_raw)
qed

lemma first_seen_snoc:
  "first_seen (xs @ [x]) = (if x \<in> set xs then first_seen xs else first_seen xs @ [x])"
proof -
  let ?n = "length xs"
  let ?ys = "xs @ [x]"
  have f: "filter (\<lambda>i. ?ys ! i \<notin> set (take i ?ys)) [0 ..< ?n]
         = filter (\<lambda>i. xs ! i \<notin> set (take i xs)) [0 ..< ?n]"
    by (rule filter_cong) (simp_all add: nth_append)
  have m: "map (\<lambda>i. ?ys ! i) (filter (\<lambda>i. xs ! i \<notin> set (take i xs)) [0 ..< ?n])
         = map (\<lambda>i. xs ! i) (filter (\<lambda>i. xs ! i \<notin> set (take i xs)) [0 ..< ?n])"
    by (rule map_cong) (simp_all add: nth_append)
  have u: "[0 ..< length ?ys] = [0 ..< ?n] @ [?n]"
    by simp
  have l: "(?ys ! ?n \<notin> set (take ?n ?ys)) = (x \<notin> set xs)"
    by simp
  have "first_seen ?ys
      = map (\<lambda>i. ?ys ! i) (filter (\<lambda>i. ?ys ! i \<notin> set (take i ?ys)) ([0 ..< ?n] @ [?n]))"
    unfolding first_seen_def u ..
  also have "\<dots> = map (\<lambda>i. ?ys ! i) (filter (\<lambda>i. ?ys ! i \<notin> set (take i ?ys)) [0 ..< ?n])
      @ (if x \<in> set xs then [] else [x])"
    unfolding filter_append map_append filter.simps l by simp
  also have "\<dots> = first_seen xs @ (if x \<in> set xs then [] else [x])"
    unfolding f m first_seen_def ..
  finally show ?thesis by simp
qed

lemma spread_Set_first_seen: "spread_Set xs = first_seen xs"
proof (induction xs rule: rev_induct)
  case Nil
  show ?case by (simp add: spread_Set_def first_seen_def)
next
  case (snoc x xs)
  have "spread_Set (xs @ [x]) = (if x \<in> set xs then spread_Set xs else spread_Set xs @ [x])"
    by (simp add: spread_Set_snoc_raw set_spread_Set)
  then show ?case
    by (simp add: first_seen_snoc snoc.IH)
qed

lemma spread_Set_distinct: "distinct xs \<Longrightarrow> spread_Set xs = xs"
proof (induction xs rule: rev_induct)
  case Nil
  show ?case by (simp add: spread_Set_def)
next
  case (snoc x xs)
  then show ?case by (simp add: spread_Set_snoc_raw set_spread_Set)
qed

subsection \<open>Evaluating concrete runs\<close>

lemma match_all_Nil:
  "match_all r [] = (case exec_at r [] of Some rest \<Rightarrow> [[]] | None \<Rightarrow> [])"
  by (subst match_all.simps) (simp split: option.splits)

lemma match_all_Cons:
  "match_all r (c # s) =
     (case exec_at r (c # s) of
        Some rest \<Rightarrow>
          if length rest < Suc (length s)
          then take (Suc (length s) - length rest) (c # s) # match_all r rest
          else [] # match_all r s
      | None \<Rightarrow> match_all r s)"
  by (subst match_all.simps) (simp split: option.splits)

lemmas char_classes = is_alpha_def is_digit_def local_char_def domain_char_def

lemmas email_eval = emails_of_def match_g_def spread_Set_def match_all_Nil match_all_Cons
  exec_at_def emailRegex_def seq_def char_classes

lemmas url_eval = normalizedUrl_def trim_def is_space_def exec_at_def scheme_re_def seq_def
  canonicalize_def sample_URL_def startsWith_def

lemmas run_eval = audit_def try_block_def catch_block_def await_def read_headers_def
  ssl_check_def sslError_after_def on_requestfailed_def not_js_def destructure_def
  failure_def errorMessage_def quiet_def target_closed_def Let_def

subsection \<open>The classification of caught errors\<close>

text \<open>A request that passes both checks runs the try block, and the catch block on an error.\<close>

lemma audit_accepted:
  assumes "destructure body ''url'' = JString s" and "s \<noteq> []" and "new_URL p (normalizedUrl s)"
  shows "audit p body =
     (case try_block p (normalizedUrl s) of
        (tr, Inr d) \<Rightarrow> (tr, \<lparr>status = 200, success = True, data = Some d, error = None\<rparr>)
      | (tr, Inl err) \<Rightarrow>
          (tr @ fst (catch_block p (normalizedUrl s) tr err),
           snd (catch_block p (normalizedUrl s) tr err)))"
  using assms by (simp add: audit_def Let_def split: prod.splits sum.splits)

lemma catch_block_response: "snd (catch_block p u tr err) = failure 200 (errorMessage err)"
  by (simp add: catch_block_def Let_def)

lemma errorMessage_cases:
  "errorMessage err \<in> set [''Page load timed out after 30 seconds'', ''Domain does not exist'',
     ''Connection refused by server'', ''SSL certificate error'', ''Request blocked by client'',
     ''Unknown error during audit'']"
  unfolding errorMessage_def by (simp del: js_includes.simps)

text \<open>
  C1. When the request has passed both checks and the try block throws, the response is
  200 with \<^verbatim>\<open>success: false\<close> and one of six fixed messages: the time-out message when
  the error is named \<^verbatim>\<open>TimeoutError\<close>; otherwise the message of the first of the codes
  \<^verbatim>\<open>net::ERR_NAME_NOT_RESOLVED\<close>, \<^verbatim>\<open>net::ERR_CONNECTION_REFUSED\<close>, \<^verbatim>\<open>net::ERR_CERT\<close>,
  \<^verbatim>\<open>net::ERR_BLOCKED_BY_CLIENT\<close> that the error's message contains; otherwise the message
  for an unknown error.
\<close>

theorem audit_error_classification:
  assumes "destructure body ''url'' = JString s" and "s \<noteq> []" and "new_URL p (normalizedUrl s)"
    and "try_block p (normalizedUrl s) = (tr, Inl err)"
  shows "snd (audit p body) =
      \<lparr>status = 200, success = False, data = None, error = Some (errorMessage err)\<rparr> \<and>
    errorMessage err \<in> set [''Page load timed out after 30 seconds'', ''Domain does not exist'',
      ''Connection refused by server'', ''SSL certificate error'', ''Request blocked by client'',
      ''Unknown error during audit''] \<and>
    (name err = ''TimeoutError'' \<longrightarrow> errorMessage err = ''Page load timed out after 30 seconds'') \<and>
    (name err \<noteq> ''TimeoutError'' \<and> js_includes (message err) ''net::ERR_NAME_NOT_RESOLVED'' \<longrightarrow>
       errorMessage err = ''Domain does not exist'') \<and>
    (name err \<noteq> ''TimeoutError'' \<and> \<not> js_includes (message err) ''net::ERR_NAME_NOT_RESOLVED'' \<and>
     js_includes (message err) ''net::ERR_CONNECTION_REFUSED'' \<longrightarrow>
       errorMessage err = ''Connection refused by server'') \<and>
    (name err \<noteq> ''TimeoutError'' \<and> \<not> js_includes (message err) ''net::ERR_NAME_NOT_RESOLVED'' \<and>
     \<not> js_includes (message err) ''net::ERR_CONNECTION_REFUSED'' \<and>
     js_includes (message err) ''net::ERR_CERT'' \<longrightarrow>
       errorMessage err = ''SSL certificate error'') \<and>
    (name err \<noteq> ''TimeoutError'' \<and> \<not> js_includes (message err) ''net::ERR_NAME_NOT_RESOLVED'' \<and>
     \<not> js_includes (message err) ''net::ERR_CONNECTION_REFUSED'' \<and>
     \<not> js_includes (message err) ''net::ERR_CERT'' \<and>
     js_includes (message err) ''net::ERR_BLOCKED_BY_CLIENT'' \<longrightarrow>
       errorMessage err = ''Request blocked by client'') \<and>
    (name err \<noteq> ''TimeoutError'' \<and> \<not> js_includes (message err) ''net::ERR_NAME_NOT_RESOLVED'' \<and>
     \<not> js_includes (message err) ''net::ERR_CONNECTION_REFUSED'' \<and>
     \<not> js_includes (message err) ''net::ERR_CERT'' \<and>
     \<not> js_includes (message err) ''net::ERR_BLOCKED_BY_CLIENT'' \<longrightarrow>
       errorMessage err = ''Unknown error during audit'')"
proof -
  have "snd (audit p body) = failure 200 (errorMessage err)"
    using assms by (simp add: audit_accepted catch_block_response)
  moreover have "errorMessage err \<in> set [''Page load timed out after 30 seconds'',
      ''Domain does not exist'', ''Connection refused by server'', ''SSL certificate error'',
      ''Request blocked by client'', ''Unknown error during audit'']"
    by (rule errorMessage_cases)
  ultimately show ?thesis
    by (simp add: failure_def errorMessage_def del: js_includes.simps)
qed

theorem audit_error_classification_witness:
  "snd (audit
      (quiet\<lparr>goto := Inl (Error ''TimeoutError'' ''net::ERR_NAME_NOT_RESOLVED at https://example.com'')\<rparr>)
      [(''url'', JString ''example.com'')]) =
     \<lparr>status = 200, success = False, data = None,
      error = Some ''Page load timed out after 30 seconds''\<rparr> \<and>
   snd (audit
      (quiet\<lparr>goto := Inl (Error ''Error'' ''net::ERR_NAME_NOT_RESOLVED at https://example.com'')\<rparr>)
      [(''url'', JString ''example.com'')]) =
     \<lparr>status = 200, success = False, data = None, error = Some ''Domain does not exist''\<rparr>"
proof -
  let ?e1 = "Error ''TimeoutError'' ''net::ERR_NAME_NOT_RESOLVED at https://example.com''"
  let ?e2 = "Error ''Error'' ''net::ERR_NAME_NOT_RESOLVED at https://example.com''"
  let ?body = "[(''url'', JString ''example.com'')]"
  let ?tr = "[NewPage, SetUserAgent, SetRequestInterception, Goto ''https://example.com'']"
  have u: "normalizedUrl ''example.com'' = ''https://example.com''"
    by (simp add: url_eval)
  have d: "destructure ?body ''url'' = JString ''example.com''"
    by (simp add: destructure_def)
  have n: "''example.com'' \<noteq> []"
    by simp
  have ok: "new_URL (quiet\<lparr>goto := Inl e\<rparr>) (normalizedUrl ''example.com'')" for e
    unfolding u by (simp add: quiet_def url_eval)
  have t: "try_block (quiet\<lparr>goto := Inl e\<rparr>) (normalizedUrl ''example.com'') = (?tr, Inl e)" for e
    unfolding u by (simp add: try_block_def await_def quiet_def)
  have m1: "errorMessage ?e1 = ''Page load timed out after 30 seconds''"
    by (simp add: errorMessage_def)
  have m2: "errorMessage ?e2 = ''Domain does not exist''"
    by (simp add: errorMessage_def startsWith_def)
  show ?thesis
    using audit_error_classification [OF d n ok t, of ?e1, THEN conjunct1]
      audit_error_classification [OF d n ok t, of ?e2, THEN conjunct1]
    unfolding m1 m2 by (rule conjI)
qed

subsection \<open>The two checks on the input\<close>

lemma audit_rejects_url:
  assumes "\<not> truthy (destructure body ''url'') \<or> typeof_js (destructure body ''url'') \<noteq> ''string''"
  shows "audit p body = ([], failure 400 ''URL is required and must be a string'')"
  using assms by (simp add: audit_def Let_def)

lemma audit_rejects_format:
  assumes "destructure body ''url'' = JString s" and "s \<noteq> []" and "\<not> new_URL p (normalizedUrl s)"
  shows "audit p body = ([], failure 400 ''Invalid URL format'')"
  using assms by (simp add: audit_def Let_def)

text \<open>
  C9. The empty string is a string and is falsy: a request whose \<^verbatim>\<open>url\<close> is the empty
  string is answered 400 with the message of the presence check, as is a request with any
  other falsy \<^verbatim>\<open>url\<close>, and nothing is done on the browser.
\<close>

theorem audit_rejects_falsy_url:
  "truthy (JString []) = False \<and> typeof_js (JString []) = ''string'' \<and>
   (destructure body ''url'' = JString [] \<longrightarrow>
      audit p body =
        ([], \<lparr>status = 400, success = False, data = None,
              error = Some ''URL is required and must be a string''\<rparr>)) \<and>
   (\<not> truthy (destructure body ''url'') \<longrightarrow>
      audit p body =
        ([], \<lparr>status = 400, success = False, data = None,
              error = Some ''URL is required and must be a string''\<rparr>))"
  by (simp add: audit_rejects_url failure_def [symmetric])

theorem audit_rejects_falsy_url_witness:
  "audit quiet [(''url'', JString [])] =
     ([], \<lparr>status = 400, success = False, data = None,
           error = Some ''URL is required and must be a string''\<rparr>) \<and>
   audit quiet [(''url'', JNumber 0)] =
     ([], \<lparr>status = 400, success = False, data = None,
           error = Some ''URL is required and must be a string''\<rparr>)"
proof -
  have "destructure [(''url'', JString [])] ''url'' = JString []"
    by (simp add: destructure_def)
  moreover have "\<not> truthy (destructure [(''url'', JNumber 0)] ''url'')"
    by (simp add: destructure_def)
  ultimately show ?thesis
    using audit_rejects_falsy_url [of "[(''url'', JString [])]" quiet]
      audit_rejects_falsy_url [of "[(''url'', JNumber 0)]" quiet]
    by blast
qed

text \<open>
  C5 as stated fails for the empty string: it is a string, its trimmed form with
  \<^verbatim>\<open>https://\<close> in front does not parse, and yet the answer is not the message for an
  invalid format (the presence check has rejected it before).
\<close>

theorem audit_rejects_malformed_input_counterexample:
  "destructure [(''url'', JString [])] ''url'' = JString [] \<and>
   typeof_js (JString []) = ''string'' \<and>
   normalizedUrl [] = ''https://'' \<and>
   \<not> new_URL quiet ''https://'' \<and>
   audit quiet [(''url'', JString [])] =
     ([], \<lparr>status = 400, success = False, data = None,
           error = Some ''URL is required and must be a string''\<rparr>) \<and>
   error (snd (audit quiet [(''url'', JString [])])) \<noteq> Some ''Invalid URL format''"
  by (simp add: run_eval url_eval)

text \<open>
  C5, amended. A request whose \<^verbatim>\<open>url\<close> is missing, not a string or the empty string is
  answered 400 with the message of the presence check; a request whose \<^verbatim>\<open>url\<close> is a
  string that is not empty and whose normalised form does not parse is answered 400 with
  the message for an invalid format; in both cases nothing is done on the browser (the
  list of effects is empty).
\<close>

theorem audit_rejects_malformed_input:
  "(destructure body ''url'' = JUndefined \<or> typeof_js (destructure body ''url'') \<noteq> ''string'' \<or>
    destructure body ''url'' = JString [] \<longrightarrow>
      audit p body =
        ([], \<lparr>status = 400, success = False, data = None,
              error = Some ''URL is required and must be a string''\<rparr>)) \<and>
   (destructure body ''url'' = JString s \<and> s \<noteq> [] \<and> \<not> new_URL p (normalizedUrl s) \<longrightarrow>
      audit p body =
        ([], \<lparr>status = 400, success = False, data = None,
              error = Some ''Invalid URL format''\<rparr>))"
proof -
  have "\<not> truthy v \<or> typeof_js v \<noteq> ''string''"
    if "v = JUndefined \<or> typeof_js v \<noteq> ''string'' \<or> v = JString []" for v
    using that by auto
  then show ?thesis
    using audit_rejects_url [of body p] audit_rejects_format [of body s p]
    by (auto simp: failure_def)
qed

theorem audit_rejects_malformed_input_witness:
  "audit quiet [] =
     ([], \<lparr>status = 400, success = False, data = None,
           error = Some ''URL is required and must be a string''\<rparr>) \<and>
   audit quiet [(''url'', JArray [JString ''example.com''])] =
     ([], \<lparr>status = 400, success = False, data = None,
           error = Some ''URL is required and must be a string''\<rparr>) \<and>
   audit quiet [(''url'', JString ''exam ple.com'')] =
     ([], \<lparr>status = 400, success = False, data = None, error = Some ''Invalid URL format''\<rparr>)"
proof -
  have a: "destructure [] ''url'' = JUndefined"
    by (simp add: destructure_def)
  have b: "typeof_js (destructure [(''url'', JArray [JString ''example.com''])] ''url'') \<noteq> ''string''"
    by (simp add: destructure_def)
  have c: "destructure [(''url'', JString ''exam ple.com'')] ''url'' = JString ''exam ple.com''"
    by (simp add: destructure_def)
  have d: "\<not> new_URL quiet (normalizedUrl ''exam ple.com'')"
    by (simp add: quiet_def url_eval)
  show ?thesis
    using audit_rejects_malformed_input [where body = "[]" and p = quiet] a
      audit_rejects_malformed_input [where body = "[(''url'', JArray [JString ''example.com''])]" and p = quiet] b
      audit_rejects_malformed_input [where body = "[(''url'', JString ''exam ple.com'')]" and s = "''exam ple.com''"
        and p = quiet] c d
    by simp
qed

subsection \<open>The SSL signal\<close>

lemma foldl_on_requestfailed:
  "foldl on_requestfailed v ts =
     (if filter (\<lambda>t. js_includes t ''SSL'') ts = [] then v
      else Some (last (filter (\<lambda>t. js_includes t ''SSL'') ts)))"
proof (induction ts rule: rev_induct)
  case Nil
  show ?case by simp
next
  case (snoc t ts)
  let ?w = "if filter (\<lambda>t. js_includes t ''SSL'') ts = [] then v
            else Some (last (filter (\<lambda>t. js_includes t ''SSL'') ts))"
  have "foldl on_requestfailed v (ts @ [t]) = on_requestfailed (foldl on_requestfailed v ts) t"
    by simp
  also have "\<dots> = on_requestfailed ?w t"
    by (simp only: snoc.IH)
  also have "\<dots> = (if filter (\<lambda>t. js_includes t ''SSL'') (ts @ [t]) = [] then v
            else Some (last (filter (\<lambda>t. js_includes t ''SSL'') (ts @ [t]))))"
    by (simp add: on_requestfailed_def del: js_includes.simps)
  finally show ?case .
qed

lemma js_includes_nonempty: "js_includes t (c # p) \<Longrightarrow> t \<noteq> []"
  by (cases t) simp_all

lemma sslError_after_includes: "sslError_after ts = Some t \<Longrightarrow> js_includes t ''SSL''"
proof -
  assume a: "sslError_after ts = Some t"
  let ?fs = "filter (\<lambda>t. js_includes t ''SSL'') ts"
  from a have ne: "?fs \<noteq> []" and t: "t = last ?fs"
    unfolding sslError_after_def foldl_on_requestfailed by (simp_all split: if_splits)
  then have "t \<in> set ?fs"
    using last_in_set by blast
  then show ?thesis
    by (simp del: js_includes.simps)
qed

lemma not_js_sslError_after: "not_js (sslError_after ts) \<longleftrightarrow> sslError_after ts = None"
proof (cases "sslError_after ts")
  case None
  then show ?thesis by (simp add: not_js_def)
next
  case (Some t)
  then have "t \<noteq> []"
    using sslError_after_includes js_includes_nonempty by blast
  with Some show ?thesis by (simp add: not_js_def)
qed

text \<open>
  C4 as stated fails: of two failures whose error texts both contain \<^verbatim>\<open>SSL\<close>, the
  variable holds the text of the second one, not of the first.
\<close>

theorem sslError_first_wins_counterexample:
  "js_includes ''net::ERR_SSL_PROTOCOL_ERROR'' ''SSL'' \<and>
   js_includes ''net::ERR_SSL_VERSION_OR_CIPHER_MISMATCH'' ''SSL'' \<and>
   sslError_after [''net::ERR_SSL_PROTOCOL_ERROR'', ''net::ERR_SSL_VERSION_OR_CIPHER_MISMATCH'']
     = Some ''net::ERR_SSL_VERSION_OR_CIPHER_MISMATCH'' \<and>
   sslError_after [''net::ERR_SSL_PROTOCOL_ERROR'', ''net::ERR_SSL_VERSION_OR_CIPHER_MISMATCH'']
     \<noteq> Some ''net::ERR_SSL_PROTOCOL_ERROR''"
  by (simp add: sslError_after_def on_requestfailed_def startsWith_def)

text \<open>
  C4, amended. After any sequence of failed sub-requests the variable holds the error text
  of the last failure whose text contains \<^verbatim>\<open>SSL\<close> (each such failure overwrites the
  value), and \<^verbatim>\<open>null\<close> when there is none; once set, it is never cleared.
\<close>

theorem sslError_last_wins:
  "sslError_after errorTexts =
     (if filter (\<lambda>t. js_includes t ''SSL'') errorTexts = [] then None
      else Some (last (filter (\<lambda>t. js_includes t ''SSL'') errorTexts))) \<and>
   (sslError_after errorTexts \<noteq> None \<longrightarrow> sslError_after (errorTexts @ later) \<noteq> None) \<and>
   (js_includes errorText ''SSL'' \<longrightarrow> sslError_after (errorTexts @ [errorText]) = Some errorText)"
proof -
  have "sslError_after (errorTexts @ later) \<noteq> None" if "sslError_after errorTexts \<noteq> None"
    using that unfolding sslError_after_def foldl_on_requestfailed
    by (auto simp del: js_includes.simps split: if_splits)
  moreover have "sslError_after (errorTexts @ [errorText]) = Some errorText"
    if "js_includes errorText ''SSL''"
    using that by (simp add: sslError_after_def on_requestfailed_def del: js_includes.simps)
  ultimately show ?thesis
    unfolding sslError_after_def foldl_on_requestfailed by blast
qed

theorem sslError_last_wins_witness:
  "sslError_after [''net::ERR_SSL_PROTOCOL_ERROR'', ''net::ERR_FAILED'',
      ''net::ERR_SSL_VERSION_OR_CIPHER_MISMATCH'', ''net::ERR_ABORTED'']
     = Some ''net::ERR_SSL_VERSION_OR_CIPHER_MISMATCH''"
proof -
  have "filter (\<lambda>t. js_includes t ''SSL'') [''net::ERR_SSL_PROTOCOL_ERROR'', ''net::ERR_FAILED'',
      ''net::ERR_SSL_VERSION_OR_CIPHER_MISMATCH'', ''net::ERR_ABORTED'']
    = [''net::ERR_SSL_PROTOCOL_ERROR'', ''net::ERR_SSL_VERSION_OR_CIPHER_MISMATCH'']"
    by (simp add: startsWith_def)
  then show ?thesis
    using sslError_last_wins [where errorTexts = "[''net::ERR_SSL_PROTOCOL_ERROR'', ''net::ERR_FAILED'',
      ''net::ERR_SSL_VERSION_OR_CIPHER_MISMATCH'', ''net::ERR_ABORTED'']", THEN conjunct1]
    by simp
qed

subsection \<open>The SSL status\<close>

lemma try_block_success:
  assumes "try_block p u = (tr, Inr d)"
  shows "\<exists>resp. goto p = Inr resp \<and>
           ssl d = snd (ssl_check (startsWith u ''https://'') (sslError_after (requestfailed p)) resp) \<and>
           (ReadSecurityDetails \<in> set tr \<longrightarrow>
              fst (ssl_check (startsWith u ''https://'') (sslError_after (requestfailed p)) resp) \<noteq> [])"
  using assms
  by (auto simp: try_block_def await_def read_headers_def Let_def
      split: sum.splits option.splits prod.splits)

lemma ssl_check_not_https: "ssl_check False v resp = ([], False)"
  by (simp add: ssl_check_def)

lemma ssl_check_latched: "\<not> not_js v \<Longrightarrow> ssl_check True v resp = ([], True)"
  by (simp add: ssl_check_def)

lemma ssl_check_unlatched:
  "not_js v \<Longrightarrow> snd (ssl_check True v resp) =
     (case resp of
        None \<Rightarrow> True
      | Some r \<Rightarrow> (case securityDetails r of Inl e \<Rightarrow> True | Inr details \<Rightarrow> details \<noteq> None))"
  by (simp add: ssl_check_def split: option.splits sum.splits)

text \<open>
  C2. In a successful audit of a URL that does not start with \<^verbatim>\<open>https://\<close>, \<^verbatim>\<open>ssl\<close>
  is false. For a URL that starts with \<^verbatim>\<open>https://\<close> and no SSL failure recorded,
  \<^verbatim>\<open>ssl\<close> says whether the security details of the response are not \<^verbatim>\<open>null\<close>, and
  is true when reading them throws (also when the response itself is \<^verbatim>\<open>null\<close>). For
  a URL that starts with \<^verbatim>\<open>https://\<close> and an SSL failure recorded, \<^verbatim>\<open>ssl\<close> is true.
\<close>

theorem ssl_status:
  assumes "destructure body ''url'' = JString s" and "s \<noteq> []" and "new_URL p (normalizedUrl s)"
    and "try_block p (normalizedUrl s) = (tr, Inr d)"
  shows "snd (audit p body) = \<lparr>status = 200, success = True, data = Some d, error = None\<rparr> \<and>
    (\<not> startsWith (normalizedUrl s) ''https://'' \<longrightarrow> ssl d = False) \<and>
    (startsWith (normalizedUrl s) ''https://'' \<and> sslError_after (requestfailed p) = None \<longrightarrow>
       (\<forall>r details. goto p = Inr (Some r) \<and> securityDetails r = Inr details \<longrightarrow>
          ssl d = (details \<noteq> None)) \<and>
       (\<forall>r e. goto p = Inr (Some r) \<and> securityDetails r = Inl e \<longrightarrow> ssl d = True) \<and>
       (goto p = Inr None \<longrightarrow> ssl d = True)) \<and>
    (startsWith (normalizedUrl s) ''https://'' \<and> sslError_after (requestfailed p) \<noteq> None \<longrightarrow>
       ssl d = True)"
proof -
  let ?u = "normalizedUrl s"
  let ?v = "sslError_after (requestfailed p)"
  from assms(4) obtain resp where g: "goto p = Inr resp"
    and d: "ssl d = snd (ssl_check (startsWith ?u ''https://'') ?v resp)"
    using try_block_success by blast
  have a: "snd (audit p body) = \<lparr>status = 200, success = True, data = Some d, error = None\<rparr>"
    using assms by (simp add: audit_accepted)
  have b: "ssl d = False" if "\<not> startsWith ?u ''https://''"
    using that d by (simp add: ssl_check_not_https)
  have c: "ssl d = (case resp of
        None \<Rightarrow> True
      | Some r \<Rightarrow> (case securityDetails r of Inl e \<Rightarrow> True | Inr details \<Rightarrow> details \<noteq> None))"
    if "startsWith ?u ''https://''" and "?v = None"
    using that d not_js_sslError_after [of "requestfailed p"] by (simp add: ssl_check_unlatched)
  have e: "ssl d = True" if "startsWith ?u ''https://''" and "?v \<noteq> None"
    using that d not_js_sslError_after [of "requestfailed p"] by (simp add: ssl_check_latched)
  from a b c e g show ?thesis
    by (auto split: option.splits sum.splits)
qed

theorem ssl_status_witness:
  "ssl (the (data (snd (audit quiet [(''url'', JString ''http://example.com'')])))) = False \<and>
   ssl (the (data (snd (audit quiet [(''url'', JString ''example.com'')])))) = True \<and>
   ssl (the (data (snd (audit
      (quiet\<lparr>goto := Inr (Some \<lparr>headers = Inr (), securityDetails = Inr None\<rparr>)\<rparr>)
      [(''url'', JString ''example.com'')])))) = False \<and>
   ssl (the (data (snd (audit
      (quiet\<lparr>requestfailed := [''net::ERR_SSL_PROTOCOL_ERROR''],
             goto := Inr (Some \<lparr>headers = Inr (), securityDetails = Inr None\<rparr>)\<rparr>)
      [(''url'', JString ''example.com'')])))) = True"
proof -
  let ?null = "\<lparr>headers = Inr (), securityDetails = Inr None\<rparr>"
  let ?p3 = "quiet\<lparr>goto := Inr (Some ?null)\<rparr>"
  let ?p4 = "quiet\<lparr>requestfailed := [''net::ERR_SSL_PROTOCOL_ERROR''], goto := Inr (Some ?null)\<rparr>"
  have u1: "normalizedUrl ''http://example.com'' = ''http://example.com''"
    and u2: "normalizedUrl ''example.com'' = ''https://example.com''"
    by (simp_all add: url_eval)
  have d: "destructure [(''url'', JString s)] ''url'' = JString s" for s
    by (simp add: destructure_def)
  have ok: "new_URL quiet ''http://example.com''" "new_URL quiet ''https://example.com''"
    "new_URL ?p3 ''https://example.com''" "new_URL ?p4 ''https://example.com''"
    by (simp_all add: quiet_def url_eval)
  have s: "\<not> startsWith ''http://example.com'' ''https://''"
    "startsWith ''https://example.com'' ''https://''"
    by (simp_all add: startsWith_def)
  have v: "sslError_after (requestfailed quiet) = None" "sslError_after (requestfailed ?p3) = None"
    "sslError_after (requestfailed ?p4) \<noteq> None"
    by (simp_all add: quiet_def sslError_after_def on_requestfailed_def startsWith_def)
  have g: "goto quiet = Inr (Some \<lparr>headers = Inr (), securityDetails = Inr (Some ''TLS 1.3'')\<rparr>)"
    "goto ?p3 = Inr (Some ?null)"
    by (simp_all add: quiet_def)
  have "\<exists>tr d. try_block quiet (normalizedUrl ''http://example.com'') = (tr, Inr d)"
    unfolding u1
    by (simp add: try_block_def await_def read_headers_def ssl_check_def quiet_def
        sslError_after_def on_requestfailed_def not_js_def startsWith_def Let_def)
  then obtain tr1 d1 where t1: "try_block quiet (normalizedUrl ''http://example.com'') = (tr1, Inr d1)"
    by blast
  have "\<exists>tr d. try_block quiet (normalizedUrl ''example.com'') = (tr, Inr d)"
    unfolding u2
    by (simp add: try_block_def await_def read_headers_def ssl_check_def quiet_def
        sslError_after_def on_requestfailed_def not_js_def startsWith_def Let_def)
  then obtain tr2 d2 where t2: "try_block quiet (normalizedUrl ''example.com'') = (tr2, Inr d2)"
    by blast
  have "\<exists>tr d. try_block ?p3 (normalizedUrl ''example.com'') = (tr, Inr d)"
    unfolding u2
    by (simp add: try_block_def await_def read_headers_def ssl_check_def quiet_def
        sslError_after_def on_requestfailed_def not_js_def startsWith_def Let_def)
  then obtain tr3 d3 where t3: "try_block ?p3 (normalizedUrl ''example.com'') = (tr3, Inr d3)"
    by blast
  have "\<exists>tr d. try_block ?p4 (normalizedUrl ''example.com'') = (tr, Inr d)"
    unfolding u2
    by (simp add: try_block_def await_def read_headers_def ssl_check_def quiet_def
        sslError_after_def on_requestfailed_def not_js_def startsWith_def Let_def)
  then obtain tr4 d4 where t4: "try_block ?p4 (normalizedUrl ''example.com'') = (tr4, Inr d4)"
    by blast
  have n: "''http://example.com'' \<noteq> []" "''example.com'' \<noteq> []"
    by simp_all
  have "ssl (the (data (snd (audit quiet [(''url'', JString ''http://example.com'')])))) = False"
    using ssl_status [OF d n(1) _ t1] ok(1) s(1) unfolding u1 by simp
  moreover have "ssl (the (data (snd (audit quiet [(''url'', JString ''example.com'')])))) = True"
    using ssl_status [OF d n(2) _ t2] ok(2) s(2) v(1) g(1) unfolding u2 by simp
  moreover have "ssl (the (data (snd (audit ?p3 [(''url'', JString ''example.com'')])))) = False"
    using ssl_status [OF d n(2) _ t3] ok(3) s(2) v(2) g(2) unfolding u2 by simp
  moreover have "ssl (the (data (snd (audit ?p4 [(''url'', JString ''example.com'')])))) = True"
    using ssl_status [OF d n(2) _ t4] ok(4) s(2) v(3) unfolding u2 by simp
  ultimately show ?thesis
    by blast
qed

lemma audit_success:
  assumes "audit p body = (tr, res)" and "success res"
  shows "\<exists>s d. destructure body ''url'' = JString s \<and> s \<noteq> [] \<and> new_URL p (normalizedUrl s) \<and>
           try_block p (normalizedUrl s) = (tr, Inr d) \<and> data res = Some d"
proof (cases "destructure body ''url''")
  case (JString s)
  show ?thesis
  proof (cases "s \<noteq> [] \<and> new_URL p (normalizedUrl s)")
    case True
    with JString assms show ?thesis
      by (auto simp: audit_accepted catch_block_response failure_def
          split: prod.splits sum.splits)
  next
    case False
    with JString assms show ?thesis
      by (auto simp: audit_def Let_def failure_def split: if_splits)
  qed
qed (use assms in \<open>auto simp: audit_def Let_def failure_def\<close>)

text \<open>
  C10. When the trimmed input starts with \<^verbatim>\<open>https://\<close> in some other spelling of the
  letters (upper or mixed case), normalisation leaves the trimmed input as it is, the
  normalised URL does not start with \<^verbatim>\<open>https://\<close>, and a successful audit reports
  \<^verbatim>\<open>ssl\<close> false without reading the security details.
\<close>

theorem uppercase_https_not_ssl:
  assumes "startsWith (map lower (trim url)) ''https://''"
    and "\<not> startsWith (trim url) ''https://''"
  shows "normalizedUrl url = trim url \<and>
    \<not> startsWith (normalizedUrl url) ''https://'' \<and>
    (destructure body ''url'' = JString url \<and> audit p body = (tr, res) \<and> success res \<longrightarrow>
       (\<exists>d. data res = Some d \<and> ssl d = False) \<and> ReadSecurityDetails \<notin> set tr)"
proof -
  from assms(1) have "has_scheme (trim url)"
    by (simp add: has_scheme_def)
  then have n: "normalizedUrl url = trim url"
    by (simp add: normalizedUrl_has_scheme)
  from assms(2) have s: "\<not> startsWith (normalizedUrl url) ''https://''"
    by (simp add: n)
  have "(\<exists>d. data res = Some d \<and> ssl d = False) \<and> ReadSecurityDetails \<notin> set tr"
    if "destructure body ''url'' = JString url" and "audit p body = (tr, res)" and "success res"
  proof -
    from audit_success [OF that(2,3)] that(1) obtain d
      where t: "try_block p (normalizedUrl url) = (tr, Inr d)" and d: "data res = Some d"
      by auto
    from try_block_success [OF t] s have "ssl d = False" "ReadSecurityDetails \<notin> set tr"
      by (auto simp: ssl_check_not_https)
    with d show ?thesis by simp
  qed
  with n s show ?thesis by blast
qed

theorem uppercase_https_not_ssl_witness:
  "normalizedUrl ''HTTPS://example.com'' = ''HTTPS://example.com'' \<and>
   success (snd (audit quiet [(''url'', JString ''HTTPS://example.com'')])) \<and>
   ssl (the (data (snd (audit quiet [(''url'', JString ''HTTPS://example.com'')])))) = False \<and>
   ReadSecurityDetails \<notin> set (fst (audit quiet [(''url'', JString ''HTTPS://example.com'')]))"
proof -
  let ?body = "[(''url'', JString ''HTTPS://example.com'')]"
  have t: "trim ''HTTPS://example.com'' = ''HTTPS://example.com''"
    by (simp add: trim_def is_space_def)
  have a: "startsWith (map lower (trim ''HTTPS://example.com'')) ''https://''"
    unfolding t by (simp add: startsWith_def lower_def)
  have b: "\<not> startsWith (trim ''HTTPS://example.com'') ''https://''"
    unfolding t by (simp add: startsWith_def)
  have d: "destructure ?body ''url'' = JString ''HTTPS://example.com''"
    by (simp add: destructure_def)
  have e: "audit quiet ?body = (fst (audit quiet ?body), snd (audit quiet ?body))"
    by simp
  have s: "success (snd (audit quiet ?body))"
    by (simp add: run_eval url_eval)
  from uppercase_https_not_ssl [OF a b, where body = ?body and p = quiet and tr = "fst (audit quiet ?body)"
      and res = "snd (audit quiet ?body)"] d e s t
  show ?thesis
    by auto
qed

subsection \<open>The load time\<close>

lemma round_half_even_bound:
  assumes "0 < d"
  shows "2 * \<bar>d * round_half_even n d - n\<bar> \<le> d"
proof -
  define q where "q = n div d"
  define r where "r = n mod d"
  define x where "x = d * q"
  have n: "n = x + r"
    by (simp add: x_def q_def r_def)
  have r: "0 \<le> r" "r < d"
    using assms by (simp_all add: r_def)
  have x1: "d * (q + 1) = x + d"
    by (simp add: x_def algebra_simps)
  have "round_half_even n d = q \<and> 2 * r \<le> d \<or> round_half_even n d = q + 1 \<and> d \<le> 2 * r"
    unfolding round_half_even_def q_def [symmetric] r_def [symmetric] Let_def by auto
  then show ?thesis
  proof
    assume "round_half_even n d = q \<and> 2 * r \<le> d"
    then show ?thesis
      using n r x_def by simp
  next
    assume a: "round_half_even n d = q + 1 \<and> d \<le> 2 * r"
    then have "d * round_half_even n d - n = d - r"
      using n x1 by simp
    then show ?thesis
      using a r by simp
  qed
qed

lemma round_half_even_nonneg: "0 < d \<Longrightarrow> 0 \<le> n \<Longrightarrow> 0 \<le> round_half_even n d"
  by (simp add: round_half_even_def Let_def pos_imp_zdiv_nonneg_iff)

lemma toFixed2_floor:
  "\<lfloor>100 * (of_int m / 2 ^ k) + 1 / 2 :: rat\<rfloor> = (200 * m + 2 ^ k) div 2 ^ Suc k"
proof -
  have "100 * (of_int m / 2 ^ k) + 1 / 2 = (of_int (200 * m + 2 ^ k) :: rat) / of_int (2 ^ Suc k)"
    by (simp add: field_simps)
  then show ?thesis
    by (simp only: floor_divide_of_int_eq)
qed

lemma scale_ge: "k \<le> scale a b k"
proof (induction a b k rule: scale.induct)
  case (1 a b k)
  then show ?case
    by (subst scale.simps) auto
qed

lemma scale_above:
  "0 < a \<Longrightarrow> k \<le> j \<Longrightarrow> a * 2 ^ j < 2 ^ 52 * b \<Longrightarrow> j < scale a b k"
proof (induction a b k rule: scale.induct)
  case (1 a b k)
  have "a * 2 ^ k \<le> a * 2 ^ j"
    using "1.prems"(1,2) by (simp add: power_increasing)
  with "1.prems"(3) have c: "\<not> (a \<le> 0 \<or> 2 ^ 52 * b \<le> a * 2 ^ k)"
    using "1.prems"(1) by linarith
  then have s: "scale a b k = scale a b (Suc k)"
    by (subst scale.simps) simp
  show ?case
  proof (cases "j = k")
    case True
    then show ?thesis
      using s scale_ge [of "Suc k" a b] by simp
  next
    case False
    with "1.prems"(2) have "Suc k \<le> j" by simp
    from "1.IH" [OF c "1.prems"(1) this "1.prems"(3)] s show ?thesis by simp
  qed
qed

lemma div_mod_bounds:
  fixes a d :: int
  assumes "0 < d"
  shows "d * (a div d) \<le> a" and "a < d * (a div d) + d"
proof -
  have "a = d * (a div d) + a mod d"
    by simp
  moreover have "0 \<le> a mod d" "a mod d < d"
    using assms by simp_all
  ultimately show "d * (a div d) \<le> a" and "a < d * (a div d) + d"
    by linarith+
qed

lemma load_time_of_eq:
  assumes "0 \<le> L"
  shows "load_time_of L =
     of_int ((200 * round_half_even (L * 2 ^ scale L 1000 0) 1000 + 2 ^ scale L 1000 0)
               div 2 ^ Suc (scale L 1000 0)) / 100"
proof -
  define k where "k = scale L 1000 0"
  define m where "m = round_half_even (L * 2 ^ k) 1000"
  have "0 \<le> m"
    unfolding m_def using assms by (intro round_half_even_nonneg) simp_all
  then have "0 \<le> (of_int m / 2 ^ k :: rat)"
    by simp
  then show ?thesis
    using assms
    unfolding load_time_of_def seconds_of_def div_double_def toFixed2_def Let_def
      k_def [symmetric] m_def [symmetric]
    by (simp only: toFixed2_floor if_False not_less [symmetric])
qed

lemma hundredths_near:
  fixes L m n P :: int
  assumes P: "500 < P"
    and m: "2 * \<bar>1000 * m - L * P\<bar> \<le> 1000"
    and n: "n = (200 * m + P) div (2 * P)"
  shows "\<bar>10 * n - L\<bar> \<le> 5"
proof -
  have p: "0 < 2 * P"
    using P by simp
  from div_mod_bounds [OF p, of "200 * m + P"]
  have a: "2 * (P * n) \<le> 200 * m + P" and b: "200 * m + P < 2 * (P * n) + 2 * P"
    unfolding n by (simp_all add: algebra_simps)
  define y where "y = L * P"
  define z where "z = P * n"
  from m have "\<bar>1000 * m - y\<bar> \<le> 500"
    unfolding y_def by simp
  then have c: "1000 * m - 500 \<le> y" and d: "y \<le> 1000 * m + 500"
    by (simp_all add: abs_le_iff)
  note a = a [folded z_def] and b = b [folded z_def]
  have "10 * z - 6 * P < y"
    using a c P by linarith
  then have "10 * (P * n) - 6 * P < L * P"
    unfolding y_def z_def .
  then have "P * (10 * n - 6) < P * L"
    by (simp add: algebra_simps)
  then have lo: "10 * n - 6 < L"
    using P by (simp add: mult_less_cancel_left_pos)
  have "y < 10 * z + 6 * P"
    using b d P by linarith
  then have "L * P < 10 * (P * n) + 6 * P"
    unfolding y_def z_def .
  then have "P * L < P * (10 * n + 6)"
    by (simp add: algebra_simps)
  then have hi: "L < 10 * n + 6"
    using P by (simp add: mult_less_cancel_left_pos)
  from lo hi show ?thesis
    by linarith
qed

lemma load_time_of_rounds:
  assumes "0 \<le> L" and "L < 2 ^ 53"
  shows "\<exists>n. load_time_of L = of_int n / 100 \<and> 0 \<le> n \<and> \<bar>10 * n - L\<bar> \<le> 5"
proof -
  define k where "k = scale L 1000 0"
  define m where "m = round_half_even (L * 2 ^ k) 1000"
  define n where "n = (200 * m + 2 ^ k) div 2 ^ Suc k"
  have lt: "load_time_of L = of_int n / 100"
    unfolding n_def m_def k_def by (rule load_time_of_eq [OF assms(1)])
  have m0: "0 \<le> m"
    unfolding m_def using assms by (intro round_half_even_nonneg) simp_all
  then have n0: "0 \<le> n"
    unfolding n_def by (simp add: pos_imp_zdiv_nonneg_iff)
  show ?thesis
  proof (cases "L = 0")
    case True
    then have "k = 0"
      unfolding k_def by (subst scale.simps) simp
    with True have "n = 0"
      unfolding n_def m_def by (simp add: round_half_even_def)
    with True lt show ?thesis by simp
  next
    case False
    with assms have pos: "0 < L" by simp
    have "L * 2 ^ 8 < 2 ^ 52 * (1000 :: int)"
      using assms(2) by simp
    from scale_above [OF pos _ this, of 0] have "9 \<le> k"
      unfolding k_def by simp
    then have "(2 :: int) ^ 9 \<le> 2 ^ k"
      by (intro power_increasing) simp_all
    then have P: "500 < (2 :: int) ^ k"
      by simp
    have r: "2 * \<bar>1000 * m - L * 2 ^ k\<bar> \<le> 1000"
      unfolding m_def by (rule round_half_even_bound) simp
    have "n = (200 * m + 2 ^ k) div (2 * 2 ^ k)"
      unfolding n_def by simp
    from hundredths_near [OF P r this] lt n0 show ?thesis
      by blast
  qed
qed

text \<open>
  Three elapsed times: 1234 ms; 1005 ms, where the double nearest to 1.005 lies below it,
  so that the hundredths are 100; and 125 ms, where 0.125 is a double and the tie goes
  to the larger number of hundredths.
\<close>

lemma load_time_of_1234: "load_time_of 1234 = 123 / 100"
proof -
  have k: "scale 1234 1000 0 = 52"
    by (simp add: scale.simps)
  show ?thesis
    by (simp add: load_time_of_eq k round_half_even_def)
qed

lemma load_time_of_ties: "load_time_of 1005 = 1" "load_time_of 125 = 13 / 100"
proof -
  have k: "scale 1005 1000 0 = 52" "scale 125 1000 0 = 55"
    by (simp_all add: scale.simps)
  show "load_time_of 1005 = 1" "load_time_of 125 = 13 / 100"
    by (simp_all add: load_time_of_eq k round_half_even_def)
qed

lemma load_time_of_negative:
  assumes "L < 0"
  shows "load_time_of L = - load_time_of (- L)"
proof -
  define x where "x = div_double (- L) 1000"
  have "0 \<le> - L * 2 ^ scale (- L) 1000 0"
    using assms by (intro mult_nonneg_nonneg) simp_all
  then have "0 \<le> round_half_even (- L * 2 ^ scale (- L) 1000 0) 1000"
    by (intro round_half_even_nonneg) simp_all
  then have x: "0 \<le> x"
    by (simp add: x_def div_double_def Let_def)
  have "toFixed2 (- x) = - toFixed2 x"
  proof (cases "x = 0")
    case True
    have "\<lfloor>1 / 2 :: rat\<rfloor> = 0"
      using toFixed2_floor [of 0 0] by simp
    with True show ?thesis
      by (simp add: toFixed2_def)
  next
    case False
    with x have "0 < x" by simp
    then show ?thesis
      by (simp add: toFixed2_def)
  qed
  then show ?thesis
    using assms by (simp add: load_time_of_def seconds_of_def x_def)
qed

lemma load_time_of_set_back: "load_time_of (- 1000) = - 1"
proof -
  have k: "scale 1000 1000 0 = 52"
    by (simp add: scale.simps)
  have "load_time_of 1000 = 1"
    by (simp add: load_time_of_eq k round_half_even_def)
  then show ?thesis
    using load_time_of_negative [of "- 1000"] by simp
qed

lemma load_time_of_rounds_signed:
  assumes "\<bar>L\<bar> < 2 ^ 53"
  shows "\<exists>n. load_time_of L = of_int n / 100 \<and> \<bar>10 * n - L\<bar> \<le> 5 \<and> (0 \<le> L \<longrightarrow> 0 \<le> n)"
proof (cases "0 \<le> L")
  case True
  with assms have "L < 2 ^ 53" by simp
  from load_time_of_rounds [OF True this] show ?thesis
    by blast
next
  case False
  with assms have "0 \<le> - L" "- L < 2 ^ 53" by simp_all
  from load_time_of_rounds [OF this] obtain n
    where n: "load_time_of (- L) = of_int n / 100" "\<bar>10 * n - (- L)\<bar> \<le> 5"
    by blast
  from False have "load_time_of L = - load_time_of (- L)"
    by (intro load_time_of_negative) simp
  with n(1) have "load_time_of L = of_int (- n) / 100"
    by simp
  moreover from n(2) have "\<bar>10 * (- n) - L\<bar> \<le> 5"
    by simp
  ultimately show ?thesis
    using False by blast
qed

lemma try_block_data:
  assumes "try_block p u = (tr, Inr d)"
  shows "load_time d = load_time_of (now_end p - now_start p)"
    and "\<exists>html. content p = Inr html \<and> emails d = emails_of html"
  using assms
  by (auto simp: try_block_def await_def read_headers_def Let_def
      split: sum.splits option.splits prod.splits)

text \<open>
  C8 as stated fails when the clock is set back while the page loads: with a second
  reading one second before the first, the audit succeeds and \<^verbatim>\<open>load_time\<close> is \<open>- 1\<close>.
\<close>

theorem load_time_nonnegative_counterexample:
  "now_end (quiet\<lparr>now_end := 1699999999000\<rparr>) - now_start (quiet\<lparr>now_end := 1699999999000\<rparr>) = - 1000 \<and>
   success (snd (audit (quiet\<lparr>now_end := 1699999999000\<rparr>) [(''url'', JString ''example.com'')])) \<and>
   load_time (the (data (snd (audit (quiet\<lparr>now_end := 1699999999000\<rparr>)
      [(''url'', JString ''example.com'')])))) = - 1 \<and>
   load_time (the (data (snd (audit (quiet\<lparr>now_end := 1699999999000\<rparr>)
      [(''url'', JString ''example.com'')])))) < 0"
  by (simp add: run_eval url_eval load_time_of_set_back)

text \<open>
  C8, amended. In a successful audit \<^verbatim>\<open>load_time\<close> is the difference of the two readings
  of the clock, in seconds, rounded to two decimal places: a whole number of hundredths,
  within half a hundredth of the difference. It is not negative when the second reading
  is not before the first. (The two readings are less than \<open>2 ^ 53\<close> ms apart, as any two
  readings since the epoch are.)
\<close>

theorem load_time_rounded:
  assumes "destructure body ''url'' = JString s" and "s \<noteq> []" and "new_URL p (normalizedUrl s)"
    and "try_block p (normalizedUrl s) = (tr, Inr d)"
    and "\<bar>now_end p - now_start p\<bar> < 2 ^ 53"
  shows "data (snd (audit p body)) = Some d \<and>
    load_time d = load_time_of (now_end p - now_start p) \<and>
    (\<exists>n :: int. load_time d = of_int n / 100) \<and>
    \<bar>load_time d - of_int (now_end p - now_start p) / 1000\<bar> \<le> 1 / 200 \<and>
    (now_start p \<le> now_end p \<longrightarrow> 0 \<le> load_time d)"
proof -
  define L where "L = now_end p - now_start p"
  have a: "data (snd (audit p body)) = Some d"
    using assms(1-4) by (simp add: audit_accepted)
  have l: "load_time d = load_time_of L"
    unfolding L_def using assms(4) by (rule try_block_data(1))
  from assms(5) have "\<bar>L\<bar> < 2 ^ 53"
    by (simp add: L_def)
  from load_time_of_rounds_signed [OF this] obtain n :: int
    where n: "load_time_of L = of_int n / 100" "\<bar>10 * n - L\<bar> \<le> 5" "0 \<le> L \<longrightarrow> 0 \<le> n"
    by blast
  have e: "(of_int n / 100 - of_int L / 1000 :: rat) = of_int (10 * n - L) / 1000"
    by simp
  have "\<bar>of_int (10 * n - L) :: rat\<bar> \<le> 5"
    using n(2) by (metis of_int_abs of_int_le_iff of_int_numeral)
  then have "\<bar>of_int (10 * n - L) :: rat\<bar> / 1000 \<le> 5 / 1000"
    by (rule divide_right_mono) simp
  then have b: "\<bar>of_int n / 100 - of_int L / 1000 :: rat\<bar> \<le> 1 / 200"
    unfolding e by simp
  have ld: "load_time d = of_int n / 100"
    using l n(1) by simp
  have "0 \<le> load_time d" if "now_start p \<le> now_end p"
    unfolding ld using n(3) that by (simp add: L_def)
  moreover have "\<exists>n :: int. load_time d = of_int n / 100"
    using ld by blast
  moreover have "\<bar>load_time d - of_int L / 1000\<bar> \<le> 1 / 200"
    unfolding ld by (rule b)
  ultimately show ?thesis
    using a l unfolding L_def [symmetric] by blast
qed

theorem load_time_rounded_witness:
  "load_time (the (data (snd (audit quiet [(''url'', JString ''example.com'')])))) = 123 / 100 \<and>
   now_end quiet - now_start quiet = 1234 \<and>
   0 \<le> load_time (the (data (snd (audit quiet [(''url'', JString ''example.com'')]))))"
proof -
  let ?body = "[(''url'', JString ''example.com'')]"
  have u: "normalizedUrl ''example.com'' = ''https://example.com''"
    by (simp add: url_eval)
  have d: "destructure ?body ''url'' = JString ''example.com''"
    by (simp add: destructure_def)
  have n: "''example.com'' \<noteq> []"
    by simp
  have ok: "new_URL quiet (normalizedUrl ''example.com'')"
    unfolding u by (simp add: quiet_def url_eval)
  have "\<exists>tr d. try_block quiet (normalizedUrl ''example.com'') = (tr, Inr d)"
    unfolding u
    by (simp add: try_block_def await_def read_headers_def ssl_check_def quiet_def
        sslError_after_def not_js_def startsWith_def Let_def)
  then obtain tr d where t: "try_block quiet (normalizedUrl ''example.com'') = (tr, Inr d)"
    by blast
  have c: "\<bar>now_end quiet - now_start quiet\<bar> < 2 ^ 53" "now_start quiet \<le> now_end quiet"
    "now_end quiet - now_start quiet = 1234"
    by (simp_all add: quiet_def)
  from load_time_rounded [OF d n ok t c(1)] c(2) show ?thesis
    unfolding c(3) load_time_of_1234 by simp
qed

subsection \<open>The e-mail addresses\<close>

lemma match_g_or_empty: "(case match_g r s of None \<Rightarrow> [] | Some ms \<Rightarrow> ms) = match_all r s"
  by (simp add: match_g_def split: list.splits)

lemma emails_of_first_seen: "emails_of html = take 5 (first_seen (match_all emailRegex html))"
  by (simp add: emails_of_def match_g_or_empty spread_Set_first_seen)

lemma emails_of_match:
  assumes "e \<in> set (emails_of html)"
  shows "email_shape e \<and> (\<exists>a b. html = a @ e @ b)"
proof -
  from assms have "e \<in> set (spread_Set (match_all emailRegex html))"
    unfolding emails_of_def match_g_or_empty by (rule in_set_takeD)
  then have "e \<in> set (match_all emailRegex html)"
    by (simp add: set_spread_Set)
  from match_all_sound [OF this] show ?thesis
    by (blast intro: lang_emailRegex)
qed

lemma emails_of_example: "emails_of ''a@b.com, a@b.com, c@d.org'' = [''a@b.com'', ''c@d.org'']"
  by (simp add: email_eval)

lemma match_all_seven:
  "match_all emailRegex ''a1@b.com a2@b.com a3@b.com a4@b.com a5@b.com a6@b.com a7@b.com'' =
     [''a1@b.com'', ''a2@b.com'', ''a3@b.com'', ''a4@b.com'', ''a5@b.com'', ''a6@b.com'',
      ''a7@b.com'']"
  by (simp add: match_all_Nil match_all_Cons exec_at_def emailRegex_def seq_def char_classes)

lemma emails_of_seven:
  "emails_of ''a1@b.com a2@b.com a3@b.com a4@b.com a5@b.com a6@b.com a7@b.com'' =
     [''a1@b.com'', ''a2@b.com'', ''a3@b.com'', ''a4@b.com'', ''a5@b.com'']"
  unfolding emails_of_def match_g_or_empty match_all_seven by (simp add: spread_Set_def)

lemma emails_of_empty:
  "emails_of html = [] \<longleftrightarrow> \<not> (\<exists>a m b. html = a @ m @ b \<and> email_shape m)"
proof -
  have "emails_of html = [] \<longleftrightarrow> match_all emailRegex html = []"
  proof -
    have "emails_of html = [] \<longleftrightarrow> spread_Set (match_all emailRegex html) = []"
      by (simp add: emails_of_def match_g_or_empty)
    also have "\<dots> \<longleftrightarrow> set (spread_Set (match_all emailRegex html)) = {}"
      by simp
    also have "\<dots> \<longleftrightarrow> match_all emailRegex html = []"
      by (simp add: set_spread_Set)
    finally show ?thesis .
  qed
  moreover have "match_all emailRegex html \<noteq> []" if "html = a @ m @ b" and "email_shape m" for a m b
    using that match_all_complete [OF email_shape_lang] by simp
  moreover have "\<exists>a m b. html = a @ m @ b \<and> email_shape m" if "match_all emailRegex html \<noteq> []"
  proof -
    from that obtain m where "m \<in> set (match_all emailRegex html)"
      by (cases "match_all emailRegex html") auto
    from match_all_sound [OF this] show ?thesis
      by (blast intro: lang_emailRegex)
  qed
  ultimately show ?thesis
    by blast
qed

text \<open>
  C7. The \<^verbatim>\<open>emails\<close> of a page are the matches of the pattern in its markup, from left
  to right, without the repetitions of an earlier match and cut after five: at most five
  entries, all different, each of the shape of an address and a part of the markup, and
  none only if no part of the markup has that shape; when the matches are all different
  they are the first five matches. The two examples of the specification evaluate as it
  says.
\<close>

theorem emails_extracted:
  "emails_of html = take 5 (first_seen (match_all emailRegex html)) \<and>
   length (emails_of html) \<le> 5 \<and>
   distinct (emails_of html) \<and>
   (\<forall>e \<in> set (emails_of html). email_shape e \<and> (\<exists>a b. html = a @ e @ b)) \<and>
   (emails_of html = [] \<longleftrightarrow> \<not> (\<exists>a m b. html = a @ m @ b \<and> email_shape m)) \<and>
   (distinct (match_all emailRegex html) \<longrightarrow> emails_of html = take 5 (match_all emailRegex html)) \<and>
   (try_block p url = (tr, Inr d) \<longrightarrow> content p = Inr html \<longrightarrow> emails d = emails_of html) \<and>
   emails_of ''a@b.com, a@b.com, c@d.org'' = [''a@b.com'', ''c@d.org''] \<and>
   emails_of ''a1@b.com a2@b.com a3@b.com a4@b.com a5@b.com a6@b.com a7@b.com'' =
     [''a1@b.com'', ''a2@b.com'', ''a3@b.com'', ''a4@b.com'', ''a5@b.com'']"
proof -
  have "length (emails_of html) \<le> 5"
    by (simp add: emails_of_def)
  moreover have "distinct (emails_of html)"
    unfolding emails_of_def by (intro distinct_take distinct_spread_Set)
  moreover have "emails_of html = take 5 (match_all emailRegex html)"
    if "distinct (match_all emailRegex html)"
    using that by (simp add: emails_of_def match_g_or_empty spread_Set_distinct)
  moreover have "emails d = emails_of html"
    if "try_block p url = (tr, Inr d)" and "content p = Inr html"
    using try_block_data(2) [OF that(1)] that(2) by auto
  ultimately show ?thesis
    using emails_of_first_seen [of html] emails_of_match [of _ html] emails_of_empty [of html]
      emails_of_example emails_of_seven
    by blast
qed

theorem emails_extracted_witness:
  "emails_of ''<p>x@y.io</p>'' = [''x@y.io''] \<and> email_shape ''x@y.io''"
proof -
  have e: "emails_of ''<p>x@y.io</p>'' = [''x@y.io'']"
    by (simp add: email_eval)
  then have "''x@y.io'' \<in> set (emails_of ''<p>x@y.io</p>'')"
    by simp
  with emails_extracted [of "''<p>x@y.io</p>''"] have "email_shape ''x@y.io''"
    by blast
  with e show ?thesis
    by blast
qed

subsection \<open>Closing the page\<close>

text \<open>
  Once the page is there, \<^verbatim>\<open>page.close()\<close> is called once, unless the \<^verbatim>\<open>try\<close> block
  throws at its own call of \<^verbatim>\<open>page.close()\<close>: then it is called twice.
\<close>

lemma page_close_count:
  assumes "destructure body ''url'' = JString s" and "s \<noteq> []" and "new_URL p (normalizedUrl s)"
    and "newPage p = Inr ()" and "try_block p (normalizedUrl s) = (tr, r)"
  shows "count_list (fst (audit p body)) PageClose = (if isl r \<and> PageClose \<in> set tr then 2 else 1)"
proof -
  have c: "count_list tr PageClose = (if PageClose \<in> set tr then 1 else 0)"
    using assms(5)
    by (auto simp: try_block_def await_def read_headers_def ssl_check_def Let_def
        split: sum.splits option.splits prod.splits if_splits)
  show ?thesis
  proof (cases r)
    case (Inr d)
    with assms(5) have "PageClose \<in> set tr"
      by (auto simp: try_block_def await_def read_headers_def ssl_check_def Let_def
          split: sum.splits option.splits prod.splits if_splits)
    with Inr c assms show ?thesis
      by (simp add: audit_accepted)
  next
    case (Inl err)
    with c assms show ?thesis
      by (simp add: audit_accepted catch_block_def Let_def split: sum.splits)
  qed
qed

lemma emails_of_quiet:
  "emails_of ''<h1>a@b.com</h1><h1>a@b.com, c@d.org</h1>'' = [''a@b.com'', ''c@d.org'']"
  by (simp add: email_eval)

text \<open>
  C3, at the input where the code departs from it: every call on the browser succeeds
  but \<^verbatim>\<open>page.close()\<close>, which rejects. The first call of \<^verbatim>\<open>page.close()\<close> stands in
  the \<^verbatim>\<open>try\<close> block, so its error reaches the \<^verbatim>\<open>catch\<close> block, which calls
  \<^verbatim>\<open>page.close()\<close> a second time and answers with the message for an unknown error,
  where the same run with a \<^verbatim>\<open>page.close()\<close> that succeeds answers with the data.
\<close>

theorem page_closed_twice:
  "audit (quiet\<lparr>close := \<lambda>k. Inl target_closed\<rparr>) [(''url'', JString ''example.com'')] =
     ([NewPage, SetUserAgent, SetRequestInterception, Goto ''https://example.com'', ReadHeaders,
       ReadSecurityDetails, Content, EvalH1, PageClose,
       ConsoleError [''Audit failed for'', ''https://example.com'', '':'',
         ''Protocol error (Target.closeTarget): Target closed''],
       PageClose,
       ConsoleError [''Failed to close page:'',
         ''Protocol error (Target.closeTarget): Target closed'']],
      \<lparr>status = 200, success = False, data = None,
       error = Some ''Unknown error during audit''\<rparr>) \<and>
   count_list (fst (audit (quiet\<lparr>close := \<lambda>k. Inl target_closed\<rparr>)
      [(''url'', JString ''example.com'')])) PageClose = 2 \<and>
   audit quiet [(''url'', JString ''example.com'')] =
     ([NewPage, SetUserAgent, SetRequestInterception, Goto ''https://example.com'', ReadHeaders,
       ReadSecurityDetails, Content, EvalH1, PageClose],
      \<lparr>status = 200, success = True,
       data = Some \<lparr>emails = [''a@b.com'', ''c@d.org''], load_time = 123 / 100, ssl = True,
                    h1_count = 2\<rparr>,
       error = None\<rparr>)"
  by (simp add: run_eval url_eval emails_of_quiet load_time_of_1234)

theorem page_closed_twice_witness:
  "count_list (fst (audit (quiet\<lparr>close := \<lambda>k. Inl target_closed\<rparr>)
      [(''url'', JString ''example.com'')])) PageClose \<noteq> 1 \<and>
   success (snd (audit quiet [(''url'', JString ''example.com'')])) \<and>
   \<not> success (snd (audit (quiet\<lparr>close := \<lambda>k. Inl target_closed\<rparr>)
      [(''url'', JString ''example.com'')]))"
  using page_closed_twice by simp

end
